theory Spec2Isabelle
  imports Main "HOL-Library.Word"
begin

unbundle bit_operations_syntax

section \<open>What the stressors take from outside\<close>

text \<open>
  The stressors read three things they do not define: the run-control flag
  \<open>opt_do_run\<close>, which a signal handler clears asynchronously, and the pseudo-random
  generators \<open>mwc8\<close>, \<open>mwc32\<close> and \<open>mwc64\<close>. A \<open>world\<close> fixes what a process
  observes: \<open>do_run w k\<close> is the value its \<open>k\<close>-th read of \<open>opt_do_run\<close> sees, and
  \<open>mwc32 w k\<close> is the value returned when the \<open>k\<close>-th draw of the process is a call
  of \<open>mwc32\<close> (likewise for the other widths). Every process counts its own reads and
  draws (\<open>proc\<close>); \<open>counter\<close> is the 64-bit cell behind its \<open>uint64_t *counter\<close>.
  Sizes (\<open>size_t\<close>) are 64-bit words, \<open>unsigned int\<close> is a 32-bit word.
\<close>

record world =
  do_run :: "nat \<Rightarrow> bool"
  mwc8 :: "nat \<Rightarrow> 8 word"
  mwc32 :: "nat \<Rightarrow> 32 word"
  mwc64 :: "nat \<Rightarrow> 64 word"

record proc =
  reads :: nat
  draws :: nat
  counter :: "64 word"

definition opt_do_run :: "world \<Rightarrow> 'a proc_scheme \<Rightarrow> bool" where
  "opt_do_run w s = do_run w (reads s)"

definition seen :: "'a proc_scheme \<Rightarrow> 'a proc_scheme" where
  "seen s = s\<lparr>reads := Suc (reads s)\<rparr>"

definition drawn :: "'a proc_scheme \<Rightarrow> 'a proc_scheme" where
  "drawn s = s\<lparr>draws := Suc (draws s)\<rparr>"

section \<open>The mapping stressor's worker: \<open>stress_rmap_child\<close>\<close>

definition RMAP_CHILD_MAX :: nat where
  "RMAP_CHILD_MAX = 16"

definition MAPPINGS_MAX :: nat where
  "MAPPINGS_MAX = 64"

definition MAPPING_PAGES :: nat where
  "MAPPING_PAGES = 16"

text \<open>
  The worker only calls \<open>memset\<close>, \<open>memcpy\<close> and \<open>msync\<close> on the windows; the model
  records each call with its arguments, in the order the code makes them. The argument
  order is that of the C library: \<open>Memset dest byte n\<close>, \<open>Memcpy dest src n\<close>,
  \<open>Msync addr n flag\<close>. The array \<open>uint8_t *mappings[MAPPINGS_MAX]\<close> is a list of
  \<open>MAPPINGS_MAX\<close> addresses; every index the worker uses is below \<open>MAPPINGS_MAX\<close>.
\<close>

datatype sync_mode = MS_ASYNC | MS_SYNC

datatype libc_call =
  Memset nat "8 word" "64 word"
| Memcpy nat nat "64 word"
| Msync nat "64 word" sync_mode

record rmap_child = proc +
  calls :: "libc_call list"

definition did :: "libc_call \<Rightarrow> rmap_child \<Rightarrow> rmap_child" where
  "did c s = s\<lparr>calls := calls s @ [c]\<rparr>"

text \<open>
  \<open>case 0\<close>: \<open>for (i = 0; opt_do_run && (i < MAPPINGS_MAX); i++)\<close>. Every evaluation of
  the loop condition reads \<open>opt_do_run\<close> once, the last one included.
\<close>

function sweep_forward ::
  "world \<Rightarrow> nat list \<Rightarrow> 64 word \<Rightarrow> sync_mode \<Rightarrow> nat \<Rightarrow> rmap_child \<Rightarrow> rmap_child" where
  "sweep_forward w mappings sz sync_flag i s =
     (if opt_do_run w s \<and> i < MAPPINGS_MAX then
        sweep_forward w mappings sz sync_flag (Suc i)
          (did (Msync (mappings ! i) sz sync_flag)
            (did (Memset (mappings ! i) (mwc8 w (draws s)) sz) (drawn (seen s))))
      else seen s)"
  by pat_completeness auto
termination
  by (relation "measure (\<lambda>(w, mappings, sz, sync_flag, i, s). MAPPINGS_MAX - i)") auto

text \<open>
  \<open>case 1\<close>: \<open>for (i = MAPPINGS_MAX - 1; opt_do_run && (i >= 0); i--)\<close>, with the signed
  index \<open>ssize_t i\<close>.
\<close>

function sweep_backward ::
  "world \<Rightarrow> nat list \<Rightarrow> 64 word \<Rightarrow> sync_mode \<Rightarrow> int \<Rightarrow> rmap_child \<Rightarrow> rmap_child" where
  "sweep_backward w mappings sz sync_flag i s =
     (if opt_do_run w s \<and> i \<ge> 0 then
        sweep_backward w mappings sz sync_flag (i - 1)
          (did (Msync (mappings ! nat i) sz sync_flag)
            (did (Memset (mappings ! nat i) (mwc8 w (draws s)) sz) (drawn (seen s))))
      else seen s)"
  by pat_completeness auto
termination
  by (relation "measure (\<lambda>(w, mappings, sz, sync_flag, i, s). nat (i + 1))") auto

text \<open>
  \<open>case 2\<close>: as \<open>case 0\<close>, but the window is \<open>j = mwc32() % MAPPINGS_MAX\<close>, drawn before
  the fill byte.
\<close>

function sweep_random ::
  "world \<Rightarrow> nat list \<Rightarrow> 64 word \<Rightarrow> sync_mode \<Rightarrow> nat \<Rightarrow> rmap_child \<Rightarrow> rmap_child" where
  "sweep_random w mappings sz sync_flag i s =
     (if opt_do_run w s \<and> i < MAPPINGS_MAX then
        (let j = unat (mwc32 w (draws s)) mod MAPPINGS_MAX;
             s1 = drawn (seen s)
         in sweep_random w mappings sz sync_flag (Suc i)
              (did (Msync (mappings ! j) sz sync_flag)
                (did (Memset (mappings ! j) (mwc8 w (draws s1)) sz) (drawn s1))))
      else seen s)"
  by pat_completeness auto
termination
  by (relation "measure (\<lambda>(w, mappings, sz, sync_flag, i, s). MAPPINGS_MAX - i)") auto

text \<open>
  \<open>case 3\<close>: \<open>for (i = 0; opt_do_run && (i < MAPPINGS_MAX - 1); i++)\<close> with
  \<open>memcpy(mappings[i], mappings[i + 1], sz); msync(mappings[i], sz, sync_flag);\<close>.
\<close>

function copy_pairs ::
  "world \<Rightarrow> nat list \<Rightarrow> 64 word \<Rightarrow> sync_mode \<Rightarrow> nat \<Rightarrow> rmap_child \<Rightarrow> rmap_child" where
  "copy_pairs w mappings sz sync_flag i s =
     (if opt_do_run w s \<and> i < MAPPINGS_MAX - 1 then
        copy_pairs w mappings sz sync_flag (Suc i)
          (did (Msync (mappings ! i) sz sync_flag)
            (did (Memcpy (mappings ! i) (mappings ! (i + 1)) sz) (seen s)))
      else seen s)"
  by pat_completeness auto
termination
  by (relation "measure (\<lambda>(w, mappings, sz, sync_flag, i, s). MAPPINGS_MAX - 1 - i)") auto

declare sweep_forward.simps [simp del] sweep_backward.simps [simp del]
  sweep_random.simps [simp del] copy_pairs.simps [simp del]

text \<open>
  The body of the \<open>do\<close> loop: the sync mode (\<open>mwc8() ? MS_ASYNC : MS_SYNC\<close>), the
  strategy \<open>mwc32() & 3\<close>, the traversal, then \<open>(*counter)++\<close>.
\<close>

definition rmap_traverse ::
  "world \<Rightarrow> nat list \<Rightarrow> 64 word \<Rightarrow> sync_mode \<Rightarrow> 32 word \<Rightarrow> rmap_child \<Rightarrow> rmap_child" where
  "rmap_traverse w mappings sz sync_flag strategy s =
     (if strategy = 0 then sweep_forward w mappings sz sync_flag 0 s
      else if strategy = 1 then
        sweep_backward w mappings sz sync_flag (int MAPPINGS_MAX - 1) s
      else if strategy = 2 then sweep_random w mappings sz sync_flag 0 s
      else if strategy = 3 then copy_pairs w mappings sz sync_flag 0 s
      else s)"

definition rmap_iteration :: "world \<Rightarrow> nat list \<Rightarrow> 64 word \<Rightarrow> rmap_child \<Rightarrow> rmap_child" where
  "rmap_iteration w mappings sz s =
     (let sync_flag = (if mwc8 w (draws s) \<noteq> 0 then MS_ASYNC else MS_SYNC);
          s1 = drawn s;
          strategy = mwc32 w (draws s1) AND 3;
          s2 = rmap_traverse w mappings sz sync_flag strategy (drawn s1)
      in s2\<lparr>counter := counter s2 + 1\<rparr>)"

text \<open>
  \<open>do { ... } while (opt_do_run && (!max_ops || *counter < max_ops)); exit(0);\<close>
  One pass is the body followed by the loop condition, which reads \<open>opt_do_run\<close>
  once. The loop need not end, so it runs on fuel: \<open>None\<close> is a worker still
  looping after that many passes, \<open>Some s\<close> is the worker at its \<open>exit(0)\<close>.
  \<open>rmap_child_passes n\<close> is the worker after \<open>n\<close> passes, or at its exit when
  that comes earlier.
\<close>

definition rmap_pass ::
  "world \<Rightarrow> nat list \<Rightarrow> 64 word \<Rightarrow> 64 word \<Rightarrow> rmap_child \<Rightarrow> bool \<times> rmap_child" where
  "rmap_pass w mappings sz max_ops s =
     (let s1 = rmap_iteration w mappings sz s
      in (opt_do_run w s1 \<and> (max_ops = 0 \<or> counter s1 < max_ops), seen s1))"

fun rmap_child_loop ::
  "nat \<Rightarrow> world \<Rightarrow> nat list \<Rightarrow> 64 word \<Rightarrow> 64 word \<Rightarrow> rmap_child \<Rightarrow> rmap_child option" where
  "rmap_child_loop 0 w mappings sz max_ops s = None"
| "rmap_child_loop (Suc fuel) w mappings sz max_ops s =
     (case rmap_pass w mappings sz max_ops s of
        (again, s1) \<Rightarrow>
          if again then rmap_child_loop fuel w mappings sz max_ops s1 else Some s1)"

fun rmap_child_passes ::
  "nat \<Rightarrow> world \<Rightarrow> nat list \<Rightarrow> 64 word \<Rightarrow> 64 word \<Rightarrow> rmap_child \<Rightarrow> rmap_child" where
  "rmap_child_passes 0 w mappings sz max_ops s = s"
| "rmap_child_passes (Suc n) w mappings sz max_ops s =
     (case rmap_pass w mappings sz max_ops s of
        (again, s1) \<Rightarrow>
          if again then rmap_child_passes n w mappings sz max_ops s1 else s1)"

definition rmap_child_start :: "64 word \<Rightarrow> rmap_child" where
  "rmap_child_start slot = \<lparr>reads = 0, draws = 0, counter = slot, calls = []\<rparr>"

definition stress_rmap_child ::
  "nat \<Rightarrow> world \<Rightarrow> 64 word \<Rightarrow> 64 word \<Rightarrow> 64 word \<Rightarrow> nat list \<Rightarrow> rmap_child option" where
  "stress_rmap_child fuel w slot max_ops page_size mappings =
     rmap_child_loop fuel w mappings (of_nat MAPPING_PAGES * page_size) max_ops
       (rmap_child_start slot)"

section \<open>Supervisors: what the parent process sees of the system\<close>

text \<open>
  The parent's system calls are answered by an \<open>os\<close>: the return value and \<open>errno\<close> of
  its \<open>k\<close>-th \<open>fork\<close>, the return value, \<open>errno\<close> and status of its \<open>k\<close>-th
  \<open>waitpid\<close>, and the value its \<open>p\<close>-th pass over the shared
  counter region reads from slot \<open>i\<close>. A wait status is what \<open>waitpid(pid, &status, 0)\<close>
  can report: a normal exit or a death by signal (\<open>WIFSIGNALED\<close>, \<open>WTERMSIG\<close>).
  Signal and error numbers are those of Linux.
\<close>

datatype wstatus = Exited int | Signaled int

record os =
  fork_ret :: "nat \<Rightarrow> int"
  fork_errno :: "nat \<Rightarrow> int"
  waitpid_ret :: "nat \<Rightarrow> int"
  waitpid_errno :: "nat \<Rightarrow> int"
  waitpid_status :: "nat \<Rightarrow> wstatus"
  slot_read :: "nat \<Rightarrow> nat \<Rightarrow> 64 word"

definition SIGKILL :: int where
  "SIGKILL = 9"

definition SIGTERM :: int where
  "SIGTERM = 15"

definition EINTR :: int where
  "EINTR = 4"

definition EAGAIN :: int where
  "EAGAIN = 11"

definition WIFSIGNALED :: "wstatus \<Rightarrow> bool" where
  "WIFSIGNALED st = (case st of Signaled sig \<Rightarrow> True | Exited code \<Rightarrow> False)"

definition WTERMSIG :: "wstatus \<Rightarrow> int" where
  "WTERMSIG st = (case st of Signaled sig \<Rightarrow> sig | Exited code \<Rightarrow> 0)"

text \<open>
  What a supervisor does to the outside is recorded as a list of events, in order:
  the system calls that matter to its protocol and the messages it logs.
\<close>

datatype event =
  Fork
| Setpgid int
| Parent_died_alarm
| Select
| Waitpid int
| Kill int int
| Pr_err_fork_failed int
| Pr_dbg_waitpid int
| Pr_dbg_child_died int
| Log_system_mem_info
| Pr_dbg_assuming_oom
| Pr_dbg_restarts "32 word" "32 word"
| Munmap_counters
| Close_fd
| Temp_dir_rm
| Munmap nat

record supervisor = proc +
  forks :: nat
  waits :: nat
  events :: "event list"

definition emit :: "event list \<Rightarrow> 'a supervisor_scheme \<Rightarrow> 'a supervisor_scheme" where
  "emit es s = s\<lparr>events := events s @ es\<rparr>"

definition forked :: "'a supervisor_scheme \<Rightarrow> 'a supervisor_scheme" where
  "forked s = emit [Fork] (s\<lparr>forks := Suc (forks s)\<rparr>)"

definition waited :: "int \<Rightarrow> 'a supervisor_scheme \<Rightarrow> 'a supervisor_scheme" where
  "waited pid s = emit [Waitpid pid] (s\<lparr>waits := Suc (waits s)\<rparr>)"

text \<open>
  Both supervisors handle a failed \<open>waitpid\<close> with the same lines:
  \<open>if (errno != EINTR) pr_dbg(...); kill(pid, SIGTERM); kill(pid, SIGKILL);
  waitpid(pid, &status, 0);\<close>. The result of that second \<open>waitpid\<close> is discarded.
\<close>

definition wait_failed :: "int \<Rightarrow> int \<Rightarrow> 'a supervisor_scheme \<Rightarrow> 'a supervisor_scheme" where
  "wait_failed pid err s =
     waited pid
       (emit [Kill pid SIGTERM, Kill pid SIGKILL]
         (if err \<noteq> EINTR then emit [Pr_dbg_waitpid err] s else s))"

section \<open>The mapping stressor's supervisor: \<open>stress_rmap\<close>\<close>

text \<open>
  The model starts at the spawn loop. What \<open>stress_rmap\<close> sets up before it (the
  zeroed shared counter region, the zeroed \<open>pids\<close>, the backing file, the windows
  \<open>mappings\<close> and the guard pages \<open>paddings\<close>, both lists of \<open>MAPPINGS_MAX\<close> addresses
  in which a failed \<open>mmap\<close> left \<open>MAP_FAILED\<close>) is taken as given; \<open>counter\<close> is the
  job's \<open>*counter\<close>.
\<close>

definition EXIT_SUCCESS :: int where
  "EXIT_SUCCESS = 0"

definition EXIT_FAILURE :: int where
  "EXIT_FAILURE = 1"

definition MAP_FAILED :: nat where
  "MAP_FAILED = 2 ^ 64 - 1"

record rmap_parent = supervisor +
  pids :: "int list"
  passes :: nat

definition rmap_parent_start :: "64 word \<Rightarrow> rmap_parent" where
  "rmap_parent_start c =
     \<lparr>reads = 0, draws = 0, counter = c, forks = 0, waits = 0, events = [],
      pids = replicate RMAP_CHILD_MAX 0, passes = 0\<rparr>"

datatype spawned = All_spawned | Fork_failure | Is_worker nat

text \<open>
  \<open>for (i = 0; i < RMAP_CHILD_MAX; i++) { pids[i] = fork(); ... }\<close>: a negative
  result is logged and jumps to \<open>cleanup\<close>; zero is the child, which goes on as worker
  \<open>i\<close> (\<open>rmap_worker\<close>); a positive one is the parent, which puts the child in the
  job's process group and spawns the next.
\<close>

function rmap_spawn :: "os \<Rightarrow> nat \<Rightarrow> rmap_parent \<Rightarrow> spawned \<times> rmap_parent" where
  "rmap_spawn sys i s =
     (if i < RMAP_CHILD_MAX then
        (let pid = fork_ret sys (forks s);
             err = fork_errno sys (forks s);
             s1 = forked (s\<lparr>pids := (pids s)[i := pid]\<rparr>)
         in if pid < 0 then (Fork_failure, emit [Pr_err_fork_failed err] s1)
            else if pid = 0 then (Is_worker i, s1)
            else rmap_spawn sys (Suc i) (emit [Setpgid pid] s1))
      else (All_spawned, s))"
  by pat_completeness auto
termination
  by (relation "measure (\<lambda>(sys, i, s). RMAP_CHILD_MAX - i)") auto

declare rmap_spawn.simps [simp del]

text \<open>
  The child branch of the spawn loop: \<open>exit(EXIT_FAILURE)\<close> when the signal handler
  cannot be installed, else \<open>stress_rmap_child(&counters[i], max_ops / RMAP_CHILD_MAX,
  page_size, mappings)\<close>, which ends in \<open>exit(0)\<close>. The result is the exit status and the
  worker's last state; \<open>slot\<close> is the value of \<open>counters[i]\<close> at the fork.
\<close>

definition rmap_worker ::
  "nat \<Rightarrow> world \<Rightarrow> bool \<Rightarrow> 64 word \<Rightarrow> 64 word \<Rightarrow> 64 word \<Rightarrow> nat list
    \<Rightarrow> (int \<times> rmap_child) option" where
  "rmap_worker fuel w sighandler_ok slot max_ops page_size mappings =
     (if \<not> sighandler_ok then Some (EXIT_FAILURE, rmap_child_start slot)
      else map_option (Pair 0)
        (stress_rmap_child fuel w slot (max_ops div of_nat RMAP_CHILD_MAX)
          page_size mappings))"

text \<open>
  \<open>do { select(...); for (i = 0; i < RMAP_CHILD_MAX; i++) *counter += counters[i]; }
  while (opt_do_run && (!max_ops || *counter < max_ops));\<close>
  A pass begins when \<open>select\<close> returns. The loop runs on fuel, one unit per pass.
\<close>

definition rmap_collect :: "os \<Rightarrow> nat \<Rightarrow> 64 word \<Rightarrow> 64 word" where
  "rmap_collect sys p c = fold (\<lambda>i c. c + slot_read sys p i) [0..<RMAP_CHILD_MAX] c"

definition rmap_wait_pass :: "world \<Rightarrow> os \<Rightarrow> 64 word \<Rightarrow> rmap_parent \<Rightarrow> bool \<times> rmap_parent" where
  "rmap_wait_pass w sys max_ops s =
     (let s1 = emit [Select] s;
          s2 = s1\<lparr>counter := rmap_collect sys (passes s1) (counter s1),
                  passes := Suc (passes s1)\<rparr>
      in (opt_do_run w s2 \<and> (max_ops = 0 \<or> counter s2 < max_ops), seen s2))"

fun rmap_wait_loop :: "nat \<Rightarrow> world \<Rightarrow> os \<Rightarrow> 64 word \<Rightarrow> rmap_parent \<Rightarrow> rmap_parent option" where
  "rmap_wait_loop 0 w sys max_ops s = None"
| "rmap_wait_loop (Suc fuel) w sys max_ops s =
     (case rmap_wait_pass w sys max_ops s of
        (again, s1) \<Rightarrow> if again then rmap_wait_loop fuel w sys max_ops s1 else Some s1)"

text \<open>
  \<open>cleanup:\<close> for every \<open>pids[i] > 0\<close>: \<open>kill(pids[i], SIGKILL)\<close>, \<open>waitpid\<close>, and the
  shared lines for a failed wait. Then the counter region, the file descriptor, the
  temporary directory and every window and guard page that was mapped are released.
\<close>

definition rmap_reap :: "os \<Rightarrow> int \<Rightarrow> rmap_parent \<Rightarrow> rmap_parent" where
  "rmap_reap sys pid s =
     (if pid \<le> 0 then s
      else
        (let ret = waitpid_ret sys (waits s);
             err = waitpid_errno sys (waits s);
             s1 = waited pid (emit [Kill pid SIGKILL] s)
         in if ret < 0 then wait_failed pid err s1 else s1))"

definition rmap_unmap :: "nat list \<Rightarrow> nat list \<Rightarrow> nat \<Rightarrow> rmap_parent \<Rightarrow> rmap_parent" where
  "rmap_unmap mappings paddings i s =
     (let s1 = (if mappings ! i \<noteq> MAP_FAILED then emit [Munmap (mappings ! i)] s else s)
      in if paddings ! i \<noteq> MAP_FAILED then emit [Munmap (paddings ! i)] s1 else s1)"

definition rmap_cleanup :: "os \<Rightarrow> nat list \<Rightarrow> nat list \<Rightarrow> rmap_parent \<Rightarrow> rmap_parent" where
  "rmap_cleanup sys mappings paddings s =
     fold (rmap_unmap mappings paddings) [0..<MAPPINGS_MAX]
       (emit [Munmap_counters, Close_fd, Temp_dir_rm]
         (fold (\<lambda>i s. rmap_reap sys (pids s ! i) s) [0..<RMAP_CHILD_MAX] s))"

datatype 'a ending = Returns int 'a | Goes_on_as_worker nat 'a

definition stress_rmap ::
  "nat \<Rightarrow> world \<Rightarrow> os \<Rightarrow> 64 word \<Rightarrow> 64 word \<Rightarrow> nat list \<Rightarrow> nat list
    \<Rightarrow> rmap_parent ending option" where
  "stress_rmap fuel w sys c max_ops mappings paddings =
     (case rmap_spawn sys 0 (rmap_parent_start c) of
        (Fork_failure, s) \<Rightarrow>
          Some (Returns EXIT_SUCCESS (rmap_cleanup sys mappings paddings s))
      | (Is_worker i, s) \<Rightarrow> Some (Goes_on_as_worker i s)
      | (All_spawned, s) \<Rightarrow>
          map_option (\<lambda>s1. Returns EXIT_SUCCESS (rmap_cleanup sys mappings paddings s1))
            (rmap_wait_loop fuel w sys max_ops s))"

section \<open>The allocator stressor: \<open>stress_malloc\<close>\<close>

subsection \<open>The C allocator\<close>

text \<open>
  A pointer is a number, \<open>0\<close> is \<open>NULL\<close>. The worker's heap is the map \<open>live\<close> from the
  address of each block it holds to the block's size; \<open>brk\<close> is the next address the
  allocator has not handed out yet. Whether a request is served is not the worker's
  choice: \<open>heap_says k\<close> answers its \<open>k\<close>-th request. \<open>Refused\<close> is a \<open>NULL\<close> result;
  \<open>Served\<close> and \<open>Moved\<close> are successes, which differ for \<open>realloc\<close> only (the block is
  resized in place, or a new block replaces it). Addresses name blocks: every block
  handed out gets an address not used before. Freeing a pointer that is neither
  \<open>NULL\<close> nor live is counted in \<open>bad_frees\<close>. \<open>touched\<close> lists the calls of
  \<open>mincore_touch_pages\<close>.
\<close>

datatype reply = Refused | Served | Moved

record malloc_child = proc +
  addr :: "nat list"
  live :: "nat \<Rightarrow> 64 word option"
  brk :: nat
  asks :: nat
  bad_frees :: nat
  touched :: "(nat \<times> 64 word) list"

definition asked :: "malloc_child \<Rightarrow> malloc_child" where
  "asked s = s\<lparr>asks := Suc (asks s)\<rparr>"

definition fresh_block :: "64 word \<Rightarrow> malloc_child \<Rightarrow> nat \<times> malloc_child" where
  "fresh_block len s = (brk s, s\<lparr>live := (live s)(brk s := Some len), brk := Suc (brk s)\<rparr>)"

definition c_malloc :: "(nat \<Rightarrow> reply) \<Rightarrow> 64 word \<Rightarrow> malloc_child \<Rightarrow> nat \<times> malloc_child" where
  "c_malloc heap_says len s =
     (case heap_says (asks s) of
        Refused \<Rightarrow> (0, asked s)
      | Served \<Rightarrow> fresh_block len (asked s)
      | Moved \<Rightarrow> fresh_block len (asked s))"

text \<open>\<open>calloc(n, size)\<close> fails when \<open>n * size\<close> does not fit in a \<open>size_t\<close>.\<close>

definition c_calloc ::
  "(nat \<Rightarrow> reply) \<Rightarrow> 64 word \<Rightarrow> 64 word \<Rightarrow> malloc_child \<Rightarrow> nat \<times> malloc_child" where
  "c_calloc heap_says n sz s =
     (if unat n * unat sz \<ge> 2 ^ 64 then (0, asked s)
      else c_malloc heap_says (n * sz) s)"

definition c_realloc ::
  "(nat \<Rightarrow> reply) \<Rightarrow> nat \<Rightarrow> 64 word \<Rightarrow> malloc_child \<Rightarrow> nat \<times> malloc_child" where
  "c_realloc heap_says p len s =
     (case heap_says (asks s) of
        Refused \<Rightarrow> (0, asked s)
      | Served \<Rightarrow> (p, (asked s)\<lparr>live := (live s)(p := Some len)\<rparr>)
      | Moved \<Rightarrow> fresh_block len ((asked s)\<lparr>live := (live s)(p := None)\<rparr>))"

definition c_free :: "nat \<Rightarrow> malloc_child \<Rightarrow> malloc_child" where
  "c_free p s =
     (if p = 0 then s
      else if live s p \<noteq> None then s\<lparr>live := (live s)(p := None)\<rparr>
      else s\<lparr>bad_frees := Suc (bad_frees s)\<rparr>)"

definition mincore_touch_pages :: "nat \<Rightarrow> 64 word \<Rightarrow> malloc_child \<Rightarrow> malloc_child" where
  "mincore_touch_pages p len s = s\<lparr>touched := touched s @ [(p, len)]\<rparr>"

subsection \<open>The worker\<close>

text \<open>
  \<open>opt_malloc_bytes\<close> and \<open>opt_malloc_max\<close> are the values in force at the label
  \<open>again\<close>. \<open>stress_alloc_size\<close> is \<open>len = mwc64() % opt_malloc_bytes; return len ? len : 1\<close>;
  a zero \<open>opt_malloc_bytes\<close> is a division by zero, \<open>None\<close> here.
\<close>

definition stress_alloc_size ::
  "world \<Rightarrow> 64 word \<Rightarrow> malloc_child \<Rightarrow> (64 word \<times> malloc_child) option" where
  "stress_alloc_size w opt_malloc_bytes s =
     (if opt_malloc_bytes = 0 then None
      else
        (let len = mwc64 w (draws s) mod opt_malloc_bytes
         in Some (if len \<noteq> 0 then len else 1, drawn s)))"

text \<open>
  One pass through the body of the worker's \<open>do\<close> loop ends in one of three ways: at
  the end of the body (\<open>Next\<close>), at \<open>goto abort\<close> (\<open>Abort\<close>), or in a division by zero
  (\<open>Trap\<close>), which kills the worker.
\<close>

datatype 'a step = Next 'a | Abort 'a | Trap

definition counted :: "'a proc_scheme \<Rightarrow> 'a proc_scheme" where
  "counted s = s\<lparr>counter := counter s + 1\<rparr>"

definition store :: "nat \<Rightarrow> nat \<Rightarrow> malloc_child \<Rightarrow> malloc_child" where
  "store i p s = s\<lparr>addr := (addr s)[i := p]\<rparr>"

text \<open>The occupied slot: \<open>if (action) { free; addr[i] = NULL; count } else { realloc ... }\<close>.\<close>

definition malloc_occupied ::
  "world \<Rightarrow> (nat \<Rightarrow> reply) \<Rightarrow> 64 word \<Rightarrow> nat \<Rightarrow> 32 word \<Rightarrow> malloc_child \<Rightarrow> malloc_child step" where
  "malloc_occupied w heap_says opt_malloc_bytes i action s =
     (if action \<noteq> 0 then Next (counted (store i 0 (c_free (addr s ! i) s)))
      else
        (case stress_alloc_size w opt_malloc_bytes s of
           None \<Rightarrow> Trap
         | Some (len, s1) \<Rightarrow>
             (case c_realloc heap_says (addr s1 ! i) len s1 of
                (tmp, s2) \<Rightarrow>
                  if tmp \<noteq> 0 then
                    Next (counted (mincore_touch_pages tmp len (store i tmp s2)))
                  else Next s2)))"

text \<open>
  The empty slot: \<open>if (action) { len = stress_alloc_size(); if (do_calloc == 0) {
  n = ((rnd >> 15) % 17) + 1; addr[i] = calloc(n, len / n); len = n * (len / n); }
  else addr[i] = malloc(len); if (addr[i]) { count; touch } }\<close>.
\<close>

definition calloc_pieces :: "32 word \<Rightarrow> 64 word" where
  "calloc_pieces rnd = ucast (drop_bit 15 rnd mod 17 + 1)"

definition malloc_empty ::
  "world \<Rightarrow> (nat \<Rightarrow> reply) \<Rightarrow> 64 word \<Rightarrow> nat \<Rightarrow> 32 word \<Rightarrow> 32 word \<Rightarrow> 32 word
    \<Rightarrow> malloc_child \<Rightarrow> malloc_child step" where
  "malloc_empty w heap_says opt_malloc_bytes i rnd action do_calloc s =
     (if action \<noteq> 0 then
        (case stress_alloc_size w opt_malloc_bytes s of
           None \<Rightarrow> Trap
         | Some (len, s1) \<Rightarrow>
             (let n = calloc_pieces rnd;
                  (p, s2) = (if do_calloc = 0 then c_calloc heap_says n (len div n) s1
                             else c_malloc heap_says len s1);
                  len1 = (if do_calloc = 0 then n * (len div n) else len);
                  s3 = store i p s2
              in if p \<noteq> 0 then Next (mincore_touch_pages p len1 (counted s3))
                 else Next s3))
      else Next s)"

definition malloc_iteration ::
  "world \<Rightarrow> (nat \<Rightarrow> reply) \<Rightarrow> 64 word \<Rightarrow> 64 word \<Rightarrow> malloc_child \<Rightarrow> malloc_child step" where
  "malloc_iteration w heap_says opt_malloc_bytes opt_malloc_max s =
     (let rnd = mwc32 w (draws s);
          s1 = drawn s
      in if opt_malloc_max = 0 then Trap
         else
           (let i = unat rnd mod unat opt_malloc_max;
                action = drop_bit 12 rnd AND 1;
                do_calloc = drop_bit 14 rnd AND 0x1f
            in if \<not> opt_do_run w s1 then Abort (seen s1)
               else if addr s1 ! i \<noteq> 0 then
                 malloc_occupied w heap_says opt_malloc_bytes i action (seen s1)
               else
                 malloc_empty w heap_says opt_malloc_bytes i rnd action do_calloc (seen s1)))"

text \<open>
  \<open>do { ... } while (opt_do_run && (!max_ops || *counter < max_ops));\<close> on fuel:
  \<open>None\<close> is a worker still in the loop; \<open>Some (Next s)\<close> left it through its
  condition, \<open>Some (Abort s)\<close> through \<open>goto abort\<close>, \<open>Some Trap\<close> died in it.
\<close>

fun malloc_loop ::
  "nat \<Rightarrow> world \<Rightarrow> (nat \<Rightarrow> reply) \<Rightarrow> 64 word \<Rightarrow> 64 word \<Rightarrow> 64 word \<Rightarrow> malloc_child
    \<Rightarrow> malloc_child step option" where
  "malloc_loop 0 w heap_says opt_malloc_bytes opt_malloc_max max_ops s = None"
| "malloc_loop (Suc fuel) w heap_says opt_malloc_bytes opt_malloc_max max_ops s =
     (case malloc_iteration w heap_says opt_malloc_bytes opt_malloc_max s of
        Trap \<Rightarrow> Some Trap
      | Abort s1 \<Rightarrow> Some (Abort s1)
      | Next s1 \<Rightarrow>
          if opt_do_run w s1 \<and> (max_ops = 0 \<or> counter s1 < max_ops) then
            malloc_loop fuel w heap_says opt_malloc_bytes opt_malloc_max max_ops (seen s1)
          else Some (Next (seen s1)))"

text \<open>\<open>abort: for (j = 0; j < opt_malloc_max; j++) free(addr[j]);\<close>\<close>

definition free_all :: "64 word \<Rightarrow> malloc_child \<Rightarrow> malloc_child" where
  "free_all opt_malloc_max s =
     fold (\<lambda>j s. c_free (addr s ! j) s) [0..<unat opt_malloc_max] s"

text \<open>
  The child branch: the table \<open>addr\<close> of \<open>opt_malloc_max\<close> null pointers, the loop, and
  the frees at \<open>abort\<close>, where both ways out of the loop arrive. The result says how the
  loop was left and gives the worker after the frees.
\<close>

definition malloc_child_start :: "nat \<Rightarrow> nat \<Rightarrow> 64 word \<Rightarrow> 64 word \<Rightarrow> malloc_child" where
  "malloc_child_start r d c opt_malloc_max =
     \<lparr>reads = r, draws = d, counter = c, addr = replicate (unat opt_malloc_max) 0,
      live = (\<lambda>p. None), brk = 1, asks = 0, bad_frees = 0, touched = []\<rparr>"

definition malloc_child_run ::
  "nat \<Rightarrow> world \<Rightarrow> (nat \<Rightarrow> reply) \<Rightarrow> 64 word \<Rightarrow> 64 word \<Rightarrow> 64 word \<Rightarrow> malloc_child
    \<Rightarrow> malloc_child step option" where
  "malloc_child_run fuel w heap_says opt_malloc_bytes opt_malloc_max max_ops s =
     (case malloc_loop fuel w heap_says opt_malloc_bytes opt_malloc_max max_ops s of
        None \<Rightarrow> None
      | Some Trap \<Rightarrow> Some Trap
      | Some (Abort s1) \<Rightarrow> Some (Abort (free_all opt_malloc_max s1))
      | Some (Next s1) \<Rightarrow> Some (Next (free_all opt_malloc_max s1)))"

subsection \<open>The supervisor\<close>

text \<open>
  From the label \<open>again\<close>: \<open>fork\<close>; on failure retry while \<open>opt_do_run && errno ==
  EAGAIN\<close>, else log; in the parent wait for the child, handle a failed wait, and
  restart (\<open>goto again\<close>) when the child was killed by \<open>SIGKILL\<close>; a zero result is the
  child, whose first call is \<open>setpgid(0, pgrp)\<close>. The jumps back to \<open>again\<close> can go on
  forever, so the function runs on fuel, one unit per \<open>fork\<close>.
\<close>

record malloc_parent = supervisor +
  restarts :: "32 word"

datatype 'a role = Parent_leaves 'a | Child_enters 'a

fun stress_malloc_again ::
  "nat \<Rightarrow> world \<Rightarrow> os \<Rightarrow> malloc_parent \<Rightarrow> malloc_parent role option" where
  "stress_malloc_again 0 w sys s = None"
| "stress_malloc_again (Suc fuel) w sys s =
     (let pid = fork_ret sys (forks s);
          err = fork_errno sys (forks s);
          s1 = forked s
      in if pid < 0 then
           (if opt_do_run w s1 \<and> err = EAGAIN then stress_malloc_again fuel w sys (seen s1)
            else Some (Parent_leaves (emit [Pr_err_fork_failed err] (seen s1))))
         else if pid > 0 then
           (let ret = waitpid_ret sys (waits s1);
                werr = waitpid_errno sys (waits s1);
                status = waitpid_status sys (waits s1);
                s2 = waited pid (emit [Setpgid pid, Parent_died_alarm] s1)
            in if ret < 0 then Some (Parent_leaves (wait_failed pid werr s2))
               else if WIFSIGNALED status then
                 (let s3 = emit [Pr_dbg_child_died (WTERMSIG status)] s2
                  in if WTERMSIG status = SIGKILL then
                       stress_malloc_again fuel w sys
                         ((emit [Log_system_mem_info, Pr_dbg_assuming_oom] s3)
                            \<lparr>restarts := restarts s3 + 1\<rparr>)
                     else Some (Parent_leaves s3))
               else Some (Parent_leaves s2))
         else Some (Child_enters (emit [Setpgid 0] s1)))"

text \<open>
  The last lines, which parent and child both reach:
  \<open>if (restarts + nomems > 0) pr_dbg(...); return EXIT_SUCCESS;\<close> with \<open>nomems\<close>
  never changed from \<open>0\<close>.
\<close>

definition malloc_epilogue :: "malloc_parent \<Rightarrow> malloc_parent" where
  "malloc_epilogue s =
     (if restarts s + 0 > 0 then emit [Pr_dbg_restarts (restarts s) 0] s else s)"

definition malloc_parent_start :: "64 word \<Rightarrow> malloc_parent" where
  "malloc_parent_start c =
     \<lparr>reads = 0, draws = 0, counter = c, forks = 0, waits = 0, events = [], restarts = 0\<rparr>"

datatype malloc_end =
  Parent_returned int malloc_parent
| Child_returned int malloc_parent "malloc_child step"
| Child_trapped

definition stress_malloc ::
  "nat \<Rightarrow> world \<Rightarrow> os \<Rightarrow> (nat \<Rightarrow> reply) \<Rightarrow> 64 word \<Rightarrow> 64 word \<Rightarrow> 64 word \<Rightarrow> 64 word
    \<Rightarrow> malloc_end option" where
  "stress_malloc fuel w sys heap_says opt_malloc_bytes opt_malloc_max c max_ops =
     (case stress_malloc_again fuel w sys (malloc_parent_start c) of
        None \<Rightarrow> None
      | Some (Parent_leaves s) \<Rightarrow> Some (Parent_returned EXIT_SUCCESS (malloc_epilogue s))
      | Some (Child_enters s) \<Rightarrow>
          (case malloc_child_run fuel w heap_says opt_malloc_bytes opt_malloc_max max_ops
                (malloc_child_start (reads s) (draws s) (counter s) opt_malloc_max) of
             None \<Rightarrow> None
           | Some Trap \<Rightarrow> Some Child_trapped
           | Some r \<Rightarrow> Some (Child_returned EXIT_SUCCESS (malloc_epilogue s) r)))"

section \<open>The invariant of the allocation table\<close>

text \<open>
  What the worker's loop maintains between its table \<open>addr\<close> and its heap: no free
  has gone wrong, every occupied slot holds a live block, every live block is held by
  a slot, and no two slots hold the same block.
\<close>

definition table_ok :: "malloc_child \<Rightarrow> bool" where
  "table_ok s \<longleftrightarrow>
     bad_frees s = 0 \<and> 0 < brk s \<and>
     (\<forall>i<length (addr s). addr s ! i \<noteq> 0 \<longrightarrow> live s (addr s ! i) \<noteq> None) \<and>
     (\<forall>p. live s p \<noteq> None \<longrightarrow> p \<noteq> 0 \<and> p < brk s \<and> (\<exists>i<length (addr s). addr s ! i = p)) \<and>
     (\<forall>i<length (addr s). \<forall>j<length (addr s).
        addr s ! i = addr s ! j \<and> addr s ! i \<noteq> 0 \<longrightarrow> i = j)"

section \<open>Concrete inputs\<close>

text \<open>
  Worlds and systems at which the models are evaluated below. In \<open>steady_world r\<close> the
  run flag stays set and every draw returns \<open>r\<close>; in \<open>stopping_world n r\<close> the flag is
  set for the first \<open>n\<close> reads of the process and clear from then on. \<open>some_windows\<close>
  are 64 distinct addresses for the windows, \<open>some_paddings\<close> for the guard pages.
\<close>

definition steady_world :: "32 word \<Rightarrow> world" where
  "steady_world r =
     \<lparr>do_run = (\<lambda>k. True), mwc8 = (\<lambda>k. ucast r), mwc32 = (\<lambda>k. r), mwc64 = (\<lambda>k. ucast r)\<rparr>"

definition stopping_world :: "nat \<Rightarrow> 32 word \<Rightarrow> world" where
  "stopping_world n r =
     \<lparr>do_run = (\<lambda>k. k < n), mwc8 = (\<lambda>k. ucast r), mwc32 = (\<lambda>k. r), mwc64 = (\<lambda>k. ucast r)\<rparr>"

definition some_windows :: "nat list" where
  "some_windows = map (\<lambda>i. 131072 * (i + 1)) [0..<64]"

definition some_paddings :: "nat list" where
  "some_paddings = map (\<lambda>i. 131072 * (i + 1) + 65536) [0..<64]"

text \<open>
  In \<open>calm_system v\<close> the \<open>k\<close>-th \<open>fork\<close> succeeds in the parent with child
  \<open>1000 + k\<close>, every \<open>waitpid\<close> succeeds and reports a normal exit, and every read of
  a counter slot gives \<open>v\<close>.
\<close>

definition calm_system :: "64 word \<Rightarrow> os" where
  "calm_system v =
     \<lparr>fork_ret = (\<lambda>k. 1000 + int k), fork_errno = (\<lambda>k. 0),
      waitpid_ret = (\<lambda>k. 1000), waitpid_errno = (\<lambda>k. 0),
      waitpid_status = (\<lambda>k. Exited 0), slot_read = (\<lambda>p i. v)\<rparr>"

text \<open>
  \<open>scripted_system fs ws\<close> answers the \<open>k\<close>-th \<open>fork\<close> with the return value and
  \<open>errno\<close> in \<open>fs ! k\<close> and the \<open>k\<close>-th \<open>waitpid\<close> with the return value, \<open>errno\<close> and
  status in \<open>ws ! k\<close>; beyond the scripts it behaves as \<open>calm_system 0\<close>.
\<close>

definition scripted_system :: "(int \<times> int) list \<Rightarrow> (int \<times> int \<times> wstatus) list \<Rightarrow> os" where
  "scripted_system fs ws =
     \<lparr>fork_ret = (\<lambda>k. if k < length fs then fst (fs ! k) else 1000 + int k),
      fork_errno = (\<lambda>k. if k < length fs then snd (fs ! k) else 0),
      waitpid_ret = (\<lambda>k. if k < length ws then fst (ws ! k) else 1000),
      waitpid_errno = (\<lambda>k. if k < length ws then fst (snd (ws ! k)) else 0),
      waitpid_status = (\<lambda>k. if k < length ws then snd (snd (ws ! k)) else Exited 0),
      slot_read = (\<lambda>p i. 0)\<rparr>"

text \<open>
  \<open>one_block\<close> is a worker whose table has a single slot, holding a block of 8 bytes
  at address 5, with 7 operations counted so far.
\<close>

definition one_block :: malloc_child where
  "one_block =
     \<lparr>reads = 0, draws = 0, counter = 7, addr = [5], live = (\<lambda>p. None)(5 := Some 8),
      brk = 6, asks = 1, bad_frees = 0, touched = []\<rparr>"

section \<open>Properties of the mapping stressor's worker\<close>

lemma counter_seen [simp]: "counter (seen s) = counter s"
  by (simp add: seen_def)
lemma counter_drawn [simp]: "counter (drawn s) = counter s"
  by (simp add: drawn_def)

lemma counter_did [simp]: "counter (did c s) = counter s"
  by (simp add: did_def)

lemma counter_sweep_forward [simp]:
  "counter (sweep_forward w mappings sz sync_flag i s) = counter s"
  by (induction w mappings sz sync_flag i s rule: sweep_forward.induct)
    (subst sweep_forward.simps, simp)

lemma counter_sweep_backward [simp]:
  "counter (sweep_backward w mappings sz sync_flag i s) = counter s"
  by (induction w mappings sz sync_flag i s rule: sweep_backward.induct)
    (subst sweep_backward.simps, simp)

lemma counter_sweep_random [simp]:
  "counter (sweep_random w mappings sz sync_flag i s) = counter s"
  by (induction w mappings sz sync_flag i s rule: sweep_random.induct)
    (subst sweep_random.simps, simp add: Let_def)

lemma counter_copy_pairs [simp]:
  "counter (copy_pairs w mappings sz sync_flag i s) = counter s"
  by (induction w mappings sz sync_flag i s rule: copy_pairs.induct)
    (subst copy_pairs.simps, simp)

lemma counter_rmap_traverse [simp]:
  "counter (rmap_traverse w mappings sz sync_flag strategy s) = counter s"
  by (simp add: rmap_traverse_def)

lemma counter_rmap_iteration [simp]:
  "counter (rmap_iteration w mappings sz s) = counter s + 1"
  by (simp add: rmap_iteration_def Let_def)

lemma rmap_pass_counter [simp]:
  "counter (snd (rmap_pass w mappings sz max_ops s)) = counter s + 1"
  by (simp add: rmap_pass_def Let_def)

lemma rmap_pass_again:
  "fst (rmap_pass w mappings sz max_ops s) \<Longrightarrow> max_ops = 0 \<or> counter s + 1 < max_ops"
  by (auto simp: rmap_pass_def Let_def)

lemma rmap_child_loop_ends:
  assumes "counter s < max_ops" and "unat max_ops - unat (counter s) \<le> fuel"
  shows "\<exists>s'. rmap_child_loop fuel w mappings sz max_ops s = Some s' \<and>
           counter s < counter s' \<and> counter s' \<le> max_ops"
  using assms
proof (induction fuel arbitrary: s)
  case 0
  then show ?case by (simp add: word_less_nat_alt)
next
  case (Suc fuel)
  obtain again s1 where p: "rmap_pass w mappings sz max_ops s = (again, s1)"
    by (cases "rmap_pass w mappings sz max_ops s")
  have c1: "counter s1 = counter s + 1"
    using rmap_pass_counter [of w mappings sz max_ops s] p by simp
  have nz: "max_ops \<noteq> 0" using Suc.prems(1) by auto
  have ub: "unat (counter s) < unat max_ops"
    using Suc.prems(1) by (simp add: word_less_nat_alt)
  have "unat max_ops < 2 ^ 64"
    using unsigned_less [of max_ops, where 'a = nat] by simp
  then have u: "unat (counter s + 1) = Suc (unat (counter s))"
    using ub by (simp add: unat_word_ariths)
  have le: "counter s + 1 \<le> max_ops"
    using ub u by (simp add: word_le_nat_alt)
  have lt: "counter s < counter s + 1"
    using u by (simp add: word_less_nat_alt)
  show ?case
  proof (cases again)
    case True
    then have "counter s1 < max_ops"
      using rmap_pass_again [of w mappings sz max_ops s] p nz c1 by simp
    moreover have "unat max_ops - unat (counter s1) \<le> fuel"
      using Suc.prems(2) c1 u by simp
    ultimately obtain s' where
      "rmap_child_loop fuel w mappings sz max_ops s1 = Some s'"
      "counter s1 < counter s'" "counter s' \<le> max_ops"
      using Suc.IH by blast
    then show ?thesis using p True c1 lt by auto
  next
    case False
    then show ?thesis using p c1 lt le by simp
  qed
qed

lemma rmap_pass_unbounded:
  assumes "\<forall>k. do_run w k"
  shows "fst (rmap_pass w mappings sz 0 s)"
  using assms by (simp add: rmap_pass_def Let_def opt_do_run_def)

lemma rmap_child_loop_unbounded:
  assumes "\<forall>k. do_run w k"
  shows "rmap_child_loop fuel w mappings sz 0 s = None"
proof (induction fuel arbitrary: s)
  case 0
  show ?case by simp
next
  case (Suc fuel)
  show ?case
    using rmap_pass_unbounded [OF assms, of mappings sz s] Suc.IH
    by (cases "rmap_pass w mappings sz 0 s") simp
qed

lemma rmap_child_passes_unbounded:
  assumes "\<forall>k. do_run w k"
  shows "counter (rmap_child_passes n w mappings sz 0 s) = counter s + of_nat n"
proof (induction n arbitrary: s)
  case 0
  show ?case by simp
next
  case (Suc n)
  obtain again s1 where p: "rmap_pass w mappings sz 0 s = (again, s1)"
    by (cases "rmap_pass w mappings sz 0 s")
  have "again" using rmap_pass_unbounded [OF assms, of mappings sz s] p by simp
  moreover have "counter s1 = counter s + 1"
    using rmap_pass_counter [of w mappings sz 0 s] p by simp
  ultimately show ?case using p Suc.IH [of s1] by simp
qed

lemma reads_seen [simp]: "reads (seen s) = Suc (reads s)"
  by (simp add: seen_def)
lemma reads_did [simp]: "reads (did c s) = reads s"
  by (simp add: did_def)
lemma calls_seen [simp]: "calls (seen s) = calls s"
  by (simp add: seen_def)
lemma calls_did [simp]: "calls (did c s) = calls s @ [c]"
  by (simp add: did_def)

lemma calls_copy_pairs:
  "calls (copy_pairs w mappings sz sync_flag i s) =
     calls s @ concat (map (\<lambda>k. [Memcpy (mappings ! k) (mappings ! (k + 1)) sz, Msync (mappings ! k) sz sync_flag])
       (takeWhile (\<lambda>j. do_run w (reads s + (j - i))) [i..<MAPPINGS_MAX - 1]))"
proof (induction w mappings sz sync_flag i s rule: copy_pairs.induct)
  case (1 w mappings sz sync_flag i s)
  define n where "n = MAPPINGS_MAX - 1"
  show ?case
  proof (cases "opt_do_run w s \<and> i < n")
    case True
    then have run: "do_run w (reads s)" and lt: "i < n"
      by (simp_all add: opt_do_run_def)
    let ?s1 = "did (Msync (mappings ! i) sz sync_flag)
            (did (Memcpy (mappings ! i) (mappings ! (i + 1)) sz) (seen s))"
    have step: "copy_pairs w mappings sz sync_flag i s = copy_pairs w mappings sz sync_flag (Suc i) ?s1"
      using True by (subst copy_pairs.simps) (simp add: n_def)
    have ih: "calls (copy_pairs w mappings sz sync_flag (Suc i) ?s1) =
       calls ?s1 @ concat (map (\<lambda>k. [Memcpy (mappings ! k) (mappings ! (k + 1)) sz, Msync (mappings ! k) sz sync_flag])
         (takeWhile (\<lambda>j. do_run w (reads ?s1 + (j - Suc i))) [Suc i..<n]))"
      using "1.IH" True by (simp add: n_def)
    have shift: "takeWhile (\<lambda>j. do_run w (reads ?s1 + (j - Suc i))) [Suc i..<n] =
        takeWhile (\<lambda>j. do_run w (reads s + (j - i))) [Suc i..<n]"
    proof (rule takeWhile_cong)
      fix x assume "x \<in> set [Suc i..<n]"
      then have "reads s + (x - i) = Suc (reads s) + (x - Suc i)" by auto
      then show "do_run w (reads ?s1 + (x - Suc i)) = do_run w (reads s + (x - i))"
        by simp
    qed simp
    have unroll: "takeWhile (\<lambda>j. do_run w (reads s + (j - i))) [i..<n] =
        i # takeWhile (\<lambda>j. do_run w (reads s + (j - i))) [Suc i..<n]"
      using run by (simp add: upt_conv_Cons [OF lt])
    show ?thesis
      unfolding n_def [symmetric] step ih shift unroll
      by simp
  next
    case False
    then have "copy_pairs w mappings sz sync_flag i s = seen s"
      by (subst copy_pairs.simps) (auto simp: n_def)
    moreover have "takeWhile (\<lambda>j. do_run w (reads s + (j - i))) [i..<n] = []"
      using False by (cases "i < n") (simp_all add: opt_do_run_def upt_conv_Cons)
    ultimately show ?thesis
      unfolding n_def [symmetric] by simp
  qed
qed

text \<open>
  Claim C6. In every iteration of the worker's loop, whichever of the four traversals
  the draw selects, however the run flag behaves and however many windows the traversal
  touches, the worker's counter slot is incremented exactly once: the traversal leaves
  the counter alone and the iteration adds one to it (in 64-bit arithmetic).
\<close>

theorem rmap_counter_once_per_iteration:
  "counter (rmap_traverse w mappings sz sync_flag strategy s) = counter s \<and>
   counter (rmap_iteration w mappings sz s) = counter s + 1"
proof
  show "counter (rmap_traverse w mappings sz sync_flag strategy s) = counter s"
    unfolding rmap_traverse_def
    by (simp add: counter_sweep_forward counter_sweep_backward counter_sweep_random
        counter_copy_pairs)
  show "counter (rmap_iteration w mappings sz s) = counter s + 1"
    unfolding rmap_iteration_def Let_def
    by (simp add: counter_rmap_traverse)
qed

text \<open>
  Claim C5, as amended. The pairwise copy strategy (\<open>case 3\<close>) goes through the indices
  \<open>i = 0, 1, ...\<close> up to \<open>MAPPINGS_MAX - 2\<close> for as long as the run flag reads set, and
  for each of them calls \<open>memcpy\<close> with destination window \<open>i\<close> and source window
  \<open>i + 1\<close>, then \<open>msync\<close> on window \<open>i\<close>: window \<open>i + 1\<close> is copied into window \<open>i\<close>.
\<close>

theorem rmap_pairwise_copy:
  "calls (rmap_traverse w mappings sz sync_flag 3 s) =
     calls s @ concat (map (\<lambda>i. [Memcpy (mappings ! i) (mappings ! (i + 1)) sz,
                                  Msync (mappings ! i) sz sync_flag])
       (takeWhile (\<lambda>i. do_run w (reads s + i)) [0..<MAPPINGS_MAX - 1]))"
proof -
  have "rmap_traverse w mappings sz sync_flag 3 s = copy_pairs w mappings sz sync_flag 0 s"
    by (simp add: rmap_traverse_def)
  then show ?thesis
    using calls_copy_pairs [of w mappings sz sync_flag 0 s] by simp
qed

lemma some_windows_nth: "k < 64 \<Longrightarrow> some_windows ! k = 131072 * (k + 1)"
  by (simp add: some_windows_def)

text \<open>
  The claim as stated has the direction the other way round (source \<open>i\<close>, destination
  \<open>i + 1\<close>). With the run flag set throughout, the strategy copies window 1 into
  window 0, and no call copies window 0 into window 1.
\<close>

theorem rmap_pairwise_copy_counterexample:
  "Memcpy (some_windows ! 1) (some_windows ! 0) 65536 \<notin>
     set (calls (rmap_traverse (steady_world 3) some_windows 65536 MS_SYNC 3 (rmap_child_start 0))) \<and>
   Memcpy (some_windows ! 0) (some_windows ! 1) 65536 \<in>
     set (calls (rmap_traverse (steady_world 3) some_windows 65536 MS_SYNC 3 (rmap_child_start 0)))"
proof -
  have tw: "takeWhile (\<lambda>i. do_run (steady_world 3) (reads (rmap_child_start 0) + i)) [0..<MAPPINGS_MAX - 1] = [0..<63]"
    by (simp add: steady_world_def MAPPINGS_MAX_def)
  have c: "calls (rmap_traverse (steady_world 3) some_windows 65536 MS_SYNC 3 (rmap_child_start 0)) =
      concat (map (\<lambda>i. [Memcpy (some_windows ! i) (some_windows ! (i + 1)) 65536,
                                  Msync (some_windows ! i) 65536 MS_SYNC]) [0..<63])"
    using calls_copy_pairs [of "steady_world 3" some_windows 65536 MS_SYNC 0 "rmap_child_start 0"] tw
    by (simp add: rmap_traverse_def rmap_child_start_def)
  show ?thesis
    unfolding c by (auto simp: some_windows_nth)
qed

text \<open>
  The budget of a worker is \<open>max_ops / RMAP_CHILD_MAX\<close>, rounded down. When the total is
  at least the number of workers, that budget is positive, every worker leaves its loop
  within that many passes whatever its world, and the slots add up to at most the total.
\<close>

lemma rmap_workers_within_budget:
  assumes "16 \<le> max_ops"
  shows "\<exists>ss. (\<forall>i<RMAP_CHILD_MAX.
             rmap_worker (unat max_ops) (ws i) True 0 max_ops page_size mappings = Some (0, ss i)) \<and>
           (\<Sum>i<RMAP_CHILD_MAX. unat (counter (ss i))) \<le> unat max_ops"
proof -
  define b where "b = max_ops div of_nat RMAP_CHILD_MAX"
  have ub: "unat b = unat max_ops div 16"
    by (simp add: b_def RMAP_CHILD_MAX_def unat_div)
  have "16 \<le> unat max_ops" using assms by (simp add: word_le_nat_alt)
  then have pos: "0 < unat b" and le: "unat b \<le> unat max_ops" using ub by auto
  then have b0: "0 < b" by (simp add: word_less_nat_alt)
  have each: "\<exists>s'. stress_rmap_child (unat max_ops) (ws i) 0 b page_size mappings = Some s' \<and>
         unat (counter s') \<le> unat b" for i
  proof -
    have "counter (rmap_child_start 0) < b" using b0 by (simp add: rmap_child_start_def)
    moreover have "unat b - unat (counter (rmap_child_start 0)) \<le> unat max_ops"
      using le by (simp add: rmap_child_start_def)
    ultimately show ?thesis
      using rmap_child_loop_ends [of "rmap_child_start 0" b "unat max_ops" "ws i" mappings
          "of_nat MAPPING_PAGES * page_size"]
      by (auto simp: stress_rmap_child_def word_le_nat_alt)
  qed
  then obtain ss where ss: "\<And>i. stress_rmap_child (unat max_ops) (ws i) 0 b page_size mappings = Some (ss i) \<and>
         unat (counter (ss i)) \<le> unat b"
    by metis
  have "(\<Sum>i<RMAP_CHILD_MAX. unat (counter (ss i))) \<le> (\<Sum>i<RMAP_CHILD_MAX. unat b)"
    by (rule sum_mono) (simp add: ss)
  also have "\<dots> = 16 * unat b" by (simp add: RMAP_CHILD_MAX_def)
  also have "\<dots> \<le> unat max_ops" using ub by simp
  finally have "(\<Sum>i<RMAP_CHILD_MAX. unat (counter (ss i))) \<le> unat max_ops" .
  moreover have "\<forall>i<RMAP_CHILD_MAX.
             rmap_worker (unat max_ops) (ws i) True 0 max_ops page_size mappings = Some (0, ss i)"
    using ss by (simp add: rmap_worker_def b_def)
  ultimately show ?thesis by blast
qed

text \<open>
  Claim C1 fails on the code for totals below the number of workers: the quotient is
  \<open>0\<close>, which the worker reads as "no bound". For a total of 5 and a run flag that
  stays set, the worker never leaves its loop, whatever the fuel, and after 21 passes
  its slot alone holds 21, more than \<open>5 + 15\<close>.
\<close>

theorem rmap_small_budget_is_unbounded:
  "(5 :: 64 word) div of_nat RMAP_CHILD_MAX = 0 \<and>
   rmap_worker fuel (steady_world 0) True 0 5 4096 some_windows = None \<and>
   counter (rmap_child_passes 21 (steady_world 0) some_windows (of_nat MAPPING_PAGES * 4096)
     (5 div of_nat RMAP_CHILD_MAX) (rmap_child_start 0)) = 21"
proof -
  have z: "(5 :: 64 word) div of_nat RMAP_CHILD_MAX = 0"
    by (simp add: RMAP_CHILD_MAX_def word_div_def)
  have run: "\<forall>k. do_run (steady_world 0) k" by (simp add: steady_world_def)
  show ?thesis
    unfolding z rmap_worker_def stress_rmap_child_def
    using rmap_child_loop_unbounded [OF run] rmap_child_passes_unbounded [OF run]
    by (simp add: rmap_child_start_def)
qed

section \<open>Properties of the supervisors\<close>

lemma emit_simps [simp]:
  "events (emit es s) = events s @ es"
  "forks (emit es s) = forks s"
  "waits (emit es s) = waits s"
  "reads (emit es s) = reads s"
  "counter (emit es s) = counter s"
  "draws (emit es s) = draws s"
  by (simp_all add: emit_def)

lemma forked_simps [simp]:
  "events (forked s) = events s @ [Fork]"
  "forks (forked s) = Suc (forks s)"
  "waits (forked s) = waits s"
  "reads (forked s) = reads s"
  "counter (forked s) = counter s"
  "draws (forked s) = draws s"
  by (simp_all add: forked_def)

lemma waited_simps [simp]:
  "events (waited pid s) = events s @ [Waitpid pid]"
  "forks (waited pid s) = forks s"
  "waits (waited pid s) = Suc (waits s)"
  "reads (waited pid s) = reads s"
  "counter (waited pid s) = counter s"
  "draws (waited pid s) = draws s"
  by (simp_all add: waited_def)

lemma seen_supervisor_simps [simp]:
  "events (seen s) = events s"
  "forks (seen s) = forks s"
  "waits (seen s) = waits s"
  by (simp_all add: seen_def)

lemma wait_failed_simps [simp]:
  "events (wait_failed pid err s) =
     events s @ (if err \<noteq> EINTR then [Pr_dbg_waitpid err] else []) @
       [Kill pid SIGTERM, Kill pid SIGKILL, Waitpid pid]"
  "forks (wait_failed pid err s) = forks s"
  "waits (wait_failed pid err s) = Suc (waits s)"
  "reads (wait_failed pid err s) = reads s"
  "counter (wait_failed pid err s) = counter s"
  by (simp_all add: wait_failed_def)

lemma restarts_simps [simp]:
  "restarts (emit es s) = restarts s"
  "restarts (forked s) = restarts s"
  "restarts (waited pid s) = restarts s"
  "restarts (seen s) = restarts s"
  "restarts (wait_failed pid err s) = restarts s"
  by (simp_all add: emit_def forked_def waited_def seen_def wait_failed_def)

lemma rmap_parent_simps [simp]:
  "pids (emit es s) = pids s"
  "pids (forked s) = pids s"
  "pids (waited pid s) = pids s"
  "pids (seen s) = pids s"
  "pids (wait_failed pid err s) = pids s"
  "passes (emit es s) = passes s"
  "passes (forked s) = passes s"
  "passes (waited pid s) = passes s"
  "passes (seen s) = passes s"
  "passes (wait_failed pid err s) = passes s"
  by (simp_all add: emit_def forked_def waited_def seen_def wait_failed_def)

subsection \<open>The wait loop\<close>

lemma fold_add_slots:
  "fold (\<lambda>i c. c + f i) [0..<n] (c :: 64 word) = c + (\<Sum>i<n. f i)"
  by (induction n) (simp_all add: add.assoc)

lemma rmap_wait_pass_counter:
  "counter (snd (rmap_wait_pass w sys max_ops s)) =
     counter s + (\<Sum>i<RMAP_CHILD_MAX. slot_read sys (passes s) i)"
  by (simp add: rmap_wait_pass_def Let_def rmap_collect_def fold_add_slots)

text \<open>
  Claim C4 fails on the code after the first pass: a pass adds the sum of the slots to
  the job counter, which is never reset, so every pass counts all the work again. With
  every slot at 1 and a budget of 20, the first pass leaves the counter at 16, the loop
  goes on, and the second pass leaves it at 32 while the slots still add up to 16.
\<close>

theorem rmap_wait_loop_counts_twice:
  "map_option counter
     (rmap_wait_loop 2 (steady_world 0) (calm_system 1) 20 (rmap_parent_start 0)) = Some 32 \<and>
   (\<Sum>i<RMAP_CHILD_MAX. slot_read (calm_system 1) 1 i) = 16"
proof -
  let ?w = "steady_world 0" and ?sys = "calm_system 1"
  obtain a1 s1 where p1: "rmap_wait_pass ?w ?sys 20 (rmap_parent_start 0) = (a1, s1)"
    by (cases "rmap_wait_pass ?w ?sys 20 (rmap_parent_start 0)")
  obtain a2 s2 where p2: "rmap_wait_pass ?w ?sys 20 s1 = (a2, s2)"
    by (cases "rmap_wait_pass ?w ?sys 20 s1")
  have sl: "(\<Sum>i<RMAP_CHILD_MAX. slot_read ?sys p i) = 16" for p
    by (simp add: calm_system_def RMAP_CHILD_MAX_def)
  have c1: "counter s1 = 16"
    using rmap_wait_pass_counter [of ?w ?sys 20 "rmap_parent_start 0"] p1 sl
    by (simp add: rmap_parent_start_def)
  have c2: "counter s2 = 32"
    using rmap_wait_pass_counter [of ?w ?sys 20 s1] p2 sl c1 by simp
  have a1: "a1"
    using p1 by (auto simp: rmap_wait_pass_def Let_def opt_do_run_def steady_world_def
        rmap_collect_def fold_add_slots calm_system_def RMAP_CHILD_MAX_def rmap_parent_start_def)
  have a2: "\<not> a2"
    using p2 c1 sl [of "passes s1"]
    by (auto simp: rmap_wait_pass_def Let_def rmap_collect_def fold_add_slots)
  show ?thesis
    using p1 p2 a1 a2 c2 sl by (simp add: numeral_2_eq_2)
qed

subsection \<open>The allocator supervisor\<close>

lemmas malloc_again_unfold = stress_malloc_again.simps(2)

declare stress_malloc_again.simps(2) [simp del]

lemma malloc_again_eagain:
  assumes "fork_ret sys (forks s) < 0" and "fork_errno sys (forks s) = EAGAIN"
    and "do_run w (reads s)"
  shows "stress_malloc_again (Suc fuel) w sys s = stress_malloc_again fuel w sys (seen (forked s))"
  using assms by (simp add: malloc_again_unfold Let_def opt_do_run_def)

lemma malloc_again_fork_fatal:
  assumes "fork_ret sys (forks s) < 0"
    and "fork_errno sys (forks s) \<noteq> EAGAIN \<or> \<not> do_run w (reads s)"
  shows "stress_malloc_again (Suc fuel) w sys s =
     Some (Parent_leaves (emit [Pr_err_fork_failed (fork_errno sys (forks s))] (seen (forked s))))"
  using assms by (auto simp: malloc_again_unfold Let_def opt_do_run_def)

lemma malloc_again_retries:
  assumes "\<forall>k<n. fork_ret sys (forks s + k) < 0 \<and> fork_errno sys (forks s + k) = EAGAIN \<and>
             do_run w (reads s + k)"
  shows "\<exists>s'. stress_malloc_again (n + fuel) w sys s = stress_malloc_again fuel w sys s' \<and>
           forks s' = forks s + n \<and> reads s' = reads s + n \<and> waits s' = waits s \<and>
           events s' = events s @ replicate n Fork \<and> restarts s' = restarts s"
  using assms
proof (induction n arbitrary: s)
  case 0
  show ?case by (intro exI [of _ s]) simp
next
  case (Suc n)
  have first: "fork_ret sys (forks s) < 0" "fork_errno sys (forks s) = EAGAIN" "do_run w (reads s)"
    using Suc.prems by force+
  let ?s1 = "seen (forked s)"
  have step: "stress_malloc_again (Suc n + fuel) w sys s = stress_malloc_again (n + fuel) w sys ?s1"
    using malloc_again_eagain [OF first] by simp
  have "\<forall>k<n. fork_ret sys (forks ?s1 + k) < 0 \<and> fork_errno sys (forks ?s1 + k) = EAGAIN \<and>
             do_run w (reads ?s1 + k)"
    using Suc.prems by auto
  from Suc.IH [OF this] obtain s' where
    "stress_malloc_again (n + fuel) w sys ?s1 = stress_malloc_again fuel w sys s'"
    "forks s' = forks ?s1 + n" "reads s' = reads ?s1 + n" "waits s' = waits ?s1"
    "events s' = events ?s1 @ replicate n Fork" "restarts s' = restarts ?s1"
    by blast
  then show ?case
    unfolding step
    by (intro exI [of _ s']) (simp add: replicate_app_Cons_same)
qed

lemma malloc_again_oom:
  assumes "fork_ret sys (forks s) > 0" and "waitpid_ret sys (waits s) \<ge> 0"
    and "waitpid_status sys (waits s) = Signaled SIGKILL"
  shows "stress_malloc_again (Suc fuel) w sys s =
     stress_malloc_again fuel w sys
       ((emit [Log_system_mem_info, Pr_dbg_assuming_oom]
          (emit [Pr_dbg_child_died SIGKILL]
            (waited (fork_ret sys (forks s))
              (emit [Setpgid (fork_ret sys (forks s)), Parent_died_alarm] (forked s)))))
          \<lparr>restarts := restarts s + 1\<rparr>)"
  using assms
  by (simp add: malloc_again_unfold Let_def WIFSIGNALED_def WTERMSIG_def)

lemma malloc_again_other_signal:
  assumes "fork_ret sys (forks s) > 0" and "waitpid_ret sys (waits s) \<ge> 0"
    and "waitpid_status sys (waits s) = Signaled sig" and "sig \<noteq> SIGKILL"
  shows "\<exists>s'. stress_malloc_again (Suc fuel) w sys s = Some (Parent_leaves s') \<and>
     events s' = events s @ [Fork, Setpgid (fork_ret sys (forks s)), Parent_died_alarm,
        Waitpid (fork_ret sys (forks s)), Pr_dbg_child_died sig] \<and>
     forks s' = Suc (forks s) \<and> restarts s' = restarts s"
  using assms
  by (simp add: malloc_again_unfold Let_def WIFSIGNALED_def WTERMSIG_def)

lemma malloc_again_oom_repeats:
  assumes "\<forall>k<n. fork_ret sys (forks s + k) > 0 \<and> waitpid_ret sys (waits s + k) \<ge> 0 \<and>
             waitpid_status sys (waits s + k) = Signaled SIGKILL"
  shows "\<exists>s'. stress_malloc_again (n + fuel) w sys s = stress_malloc_again fuel w sys s' \<and>
           restarts s' = restarts s + of_nat n \<and> forks s' = forks s + n \<and>
           waits s' = waits s + n \<and> reads s' = reads s \<and>
           draws s' = draws s \<and> counter s' = counter s \<and>
           count_list (events s') Log_system_mem_info =
             count_list (events s) Log_system_mem_info + n"
  using assms
proof (induction n arbitrary: s)
  case 0
  show ?case by (intro exI [of _ s]) simp
next
  case (Suc n)
  have first: "fork_ret sys (forks s) > 0" "waitpid_ret sys (waits s) \<ge> 0"
      "waitpid_status sys (waits s) = Signaled SIGKILL"
    using Suc.prems by force+
  let ?s1 = "(emit [Log_system_mem_info, Pr_dbg_assuming_oom]
          (emit [Pr_dbg_child_died SIGKILL]
            (waited (fork_ret sys (forks s))
              (emit [Setpgid (fork_ret sys (forks s)), Parent_died_alarm] (forked s)))))
          \<lparr>restarts := restarts s + 1\<rparr>"
  have step: "stress_malloc_again (Suc n + fuel) w sys s = stress_malloc_again (n + fuel) w sys ?s1"
    using malloc_again_oom [OF first] by simp
  have "\<forall>k<n. fork_ret sys (forks ?s1 + k) > 0 \<and> waitpid_ret sys (waits ?s1 + k) \<ge> 0 \<and>
             waitpid_status sys (waits ?s1 + k) = Signaled SIGKILL"
    using Suc.prems by auto
  from Suc.IH [OF this] obtain s' where
    "stress_malloc_again (n + fuel) w sys ?s1 = stress_malloc_again fuel w sys s'"
    "restarts s' = restarts ?s1 + of_nat n" "forks s' = forks ?s1 + n"
    "waits s' = waits ?s1 + n" "reads s' = reads ?s1"
    "draws s' = draws ?s1" "counter s' = counter ?s1"
    "count_list (events s') Log_system_mem_info =
             count_list (events ?s1) Log_system_mem_info + n"
    by blast
  then show ?case
    unfolding step
    by (intro exI [of _ s']) simp
qed

lemma malloc_again_wait_fails:
  assumes "fork_ret sys (forks s) > 0" and "waitpid_ret sys (waits s) < 0"
  shows "\<exists>s'. stress_malloc_again (Suc fuel) w sys s = Some (Parent_leaves s') \<and>
     events s' = events s @ [Fork, Setpgid (fork_ret sys (forks s)), Parent_died_alarm,
        Waitpid (fork_ret sys (forks s))] @
        (if waitpid_errno sys (waits s) \<noteq> EINTR then [Pr_dbg_waitpid (waitpid_errno sys (waits s))]
         else []) @
        [Kill (fork_ret sys (forks s)) SIGTERM, Kill (fork_ret sys (forks s)) SIGKILL,
         Waitpid (fork_ret sys (forks s))]"
  using assms by (simp add: malloc_again_unfold Let_def)

lemma rmap_reap_events:
  assumes "pid > 0"
  shows "events (rmap_reap sys pid s) =
     events s @ [Kill pid SIGKILL, Waitpid pid] @
       (if waitpid_ret sys (waits s) < 0 then
          (if waitpid_errno sys (waits s) \<noteq> EINTR then [Pr_dbg_waitpid (waitpid_errno sys (waits s))]
           else []) @ [Kill pid SIGTERM, Kill pid SIGKILL, Waitpid pid]
        else [])"
  using assms by (simp add: rmap_reap_def Let_def)

subsection \<open>The mapping supervisor\<close>

lemma rmap_spawn_failure:
  assumes "j \<le> i" and "i < RMAP_CHILD_MAX" and "forks s = j"
    and "\<forall>k. j \<le> k \<and> k < i \<longrightarrow> fork_ret sys k > 0" and "fork_ret sys i < 0"
  shows "\<exists>s'. rmap_spawn sys j s = (Fork_failure, s') \<and> forks s' = Suc i \<and>
           waits s' = waits s \<and> passes s' = passes s \<and> counter s' = counter s \<and>
           events s' = events s @ concat (map (\<lambda>k. [Fork, Setpgid (fork_ret sys k)]) [j..<i]) @
             [Fork, Pr_err_fork_failed (fork_errno sys i)] \<and>
           length (pids s') = length (pids s) \<and>
           (\<forall>k<length (pids s). pids s' ! k = (if j \<le> k \<and> k \<le> i then fork_ret sys k else pids s ! k))"
  using assms
proof (induction "i - j" arbitrary: j s)
  case 0
  then have ji: "j = i" by simp
  show ?case
    using 0 ji
    by (subst rmap_spawn.simps) (auto simp: Let_def nth_list_update)
next
  case (Suc d)
  then have lt: "j < i" by simp
  then have pos: "fork_ret sys j > 0" using Suc.prems by simp
  let ?s1 = "emit [Setpgid (fork_ret sys j)] (forked (s\<lparr>pids := (pids s)[j := fork_ret sys j]\<rparr>))"
  have step: "rmap_spawn sys j s = rmap_spawn sys (Suc j) ?s1"
    using lt pos Suc.prems(2,3) by (subst rmap_spawn.simps) (simp add: Let_def)
  have "d = i - Suc j" using Suc.hyps(2) by simp
  moreover have "Suc j \<le> i" using lt by simp
  moreover have "forks ?s1 = Suc j" using Suc.prems(3) by simp
  moreover have "\<forall>k. Suc j \<le> k \<and> k < i \<longrightarrow> fork_ret sys k > 0" using Suc.prems(4) by simp
  ultimately obtain s' where s':
    "rmap_spawn sys (Suc j) ?s1 = (Fork_failure, s')" "forks s' = Suc i"
    "waits s' = waits ?s1" "passes s' = passes ?s1" "counter s' = counter ?s1"
    "events s' = events ?s1 @ concat (map (\<lambda>k. [Fork, Setpgid (fork_ret sys k)]) [Suc j..<i]) @
             [Fork, Pr_err_fork_failed (fork_errno sys i)]"
    "length (pids s') = length (pids ?s1)"
    "\<forall>k<length (pids ?s1). pids s' ! k =
        (if Suc j \<le> k \<and> k \<le> i then fork_ret sys k else pids ?s1 ! k)"
    using Suc.hyps(1) [of "Suc j" ?s1] Suc.prems(2,5) by blast
  have ev: "events s' = events s @ concat (map (\<lambda>k. [Fork, Setpgid (fork_ret sys k)]) [j..<i]) @
             [Fork, Pr_err_fork_failed (fork_errno sys i)]"
    using s'(6) lt by (simp add: upt_conv_Cons)
  have pd: "\<forall>k<length (pids s). pids s' ! k = (if j \<le> k \<and> k \<le> i then fork_ret sys k else pids s ! k)"
  proof (intro allI impI)
    fix k assume k: "k < length (pids s)"
    show "pids s' ! k = (if j \<le> k \<and> k \<le> i then fork_ret sys k else pids s ! k)"
    proof (cases "k = j")
      case True
      then show ?thesis using s'(8) k lt by simp
    next
      case False
      then have "(Suc j \<le> k) = (j \<le> k)" by auto
      then show ?thesis using s'(8) k False by simp
    qed
  qed
  show ?case
    unfolding step using s'(1,2,3,4,5,7) ev pd
    by (intro exI [of _ s']) simp
qed

lemma rmap_reap_keeps [simp]:
  "pids (rmap_reap sys pid s) = pids s"
  "forks (rmap_reap sys pid s) = forks s"
  by (simp_all add: rmap_reap_def Let_def)

lemma rmap_reap_suffix:
  "\<exists>es. events (rmap_reap sys pid s) = events s @ es \<and> Fork \<notin> set es \<and> Select \<notin> set es \<and>
     (\<forall>p. Kill p SIGKILL \<in> set es \<longleftrightarrow> pid > 0 \<and> p = pid)"
  by (auto simp: rmap_reap_def Let_def)

lemma rmap_reap_all:
  "\<exists>es. events (fold (\<lambda>i s. rmap_reap sys (pids s ! i) s) [0..<n] s) = events s @ es \<and>
     pids (fold (\<lambda>i s. rmap_reap sys (pids s ! i) s) [0..<n] s) = pids s \<and>
     forks (fold (\<lambda>i s. rmap_reap sys (pids s ! i) s) [0..<n] s) = forks s \<and>
     Fork \<notin> set es \<and> Select \<notin> set es \<and>
     (\<forall>p. Kill p SIGKILL \<in> set es \<longleftrightarrow> p > 0 \<and> (\<exists>i<n. pids s ! i = p))"
proof (induction n)
  case 0
  show ?case by simp
next
  case (Suc n)
  let ?t = "fold (\<lambda>i s. rmap_reap sys (pids s ! i) s) [0..<n] s"
  from Suc obtain es where es: "events ?t = events s @ es" "pids ?t = pids s" "forks ?t = forks s"
    "Fork \<notin> set es" "Select \<notin> set es"
    "\<forall>p. Kill p SIGKILL \<in> set es \<longleftrightarrow> p > 0 \<and> (\<exists>i<n. pids s ! i = p)"
    by blast
  obtain es' where es': "events (rmap_reap sys (pids s ! n) ?t) = events ?t @ es'"
    "Fork \<notin> set es'" "Select \<notin> set es'"
    "\<forall>p. Kill p SIGKILL \<in> set es' \<longleftrightarrow> pids s ! n > 0 \<and> p = pids s ! n"
    using rmap_reap_suffix [of sys "pids s ! n" ?t] by blast
  have "\<forall>p. Kill p SIGKILL \<in> set (es @ es') \<longleftrightarrow> p > 0 \<and> (\<exists>i<Suc n. pids s ! i = p)"
    using es(6) es'(4) by (auto simp: less_Suc_eq)
  then show ?case
    using es es' by (intro exI [of _ "es @ es'"]) simp
qed

lemma rmap_unmap_suffix:
  "\<exists>es. events (rmap_unmap mappings paddings i s) = events s @ es \<and> set es \<subseteq> range Munmap \<and>
     forks (rmap_unmap mappings paddings i s) = forks s"
  by (auto simp: rmap_unmap_def Let_def)

lemma rmap_unmap_all:
  "\<exists>es. events (fold (rmap_unmap mappings paddings) [0..<n] s) = events s @ es \<and>
     set es \<subseteq> range Munmap \<and> forks (fold (rmap_unmap mappings paddings) [0..<n] s) = forks s"
proof (induction n)
  case 0
  show ?case by simp
next
  case (Suc n)
  let ?t = "fold (rmap_unmap mappings paddings) [0..<n] s"
  from Suc obtain es where es: "events ?t = events s @ es" "set es \<subseteq> range Munmap"
    "forks ?t = forks s"
    by blast
  obtain es' where es': "events (rmap_unmap mappings paddings n ?t) = events ?t @ es'"
    "set es' \<subseteq> range Munmap" "forks (rmap_unmap mappings paddings n ?t) = forks ?t"
    using rmap_unmap_suffix [of mappings paddings n ?t] by blast
  show ?case
    using es es' by (intro exI [of _ "es @ es'"]) simp
qed

lemma rmap_cleanup_suffix:
  "\<exists>es. events (rmap_cleanup sys mappings paddings s) = events s @ es \<and>
     forks (rmap_cleanup sys mappings paddings s) = forks s \<and>
     Fork \<notin> set es \<and> Select \<notin> set es \<and>
     (\<forall>p. Kill p SIGKILL \<in> set es \<longleftrightarrow> p > 0 \<and> (\<exists>i<RMAP_CHILD_MAX. pids s ! i = p))"
proof -
  let ?s1 = "fold (\<lambda>i s. rmap_reap sys (pids s ! i) s) [0..<RMAP_CHILD_MAX] s"
  let ?s2 = "emit [Munmap_counters, Close_fd, Temp_dir_rm] ?s1"
  obtain es1 where es1: "events ?s1 = events s @ es1" "forks ?s1 = forks s"
    "Fork \<notin> set es1" "Select \<notin> set es1"
    "\<forall>p. Kill p SIGKILL \<in> set es1 \<longleftrightarrow> p > 0 \<and> (\<exists>i<RMAP_CHILD_MAX. pids s ! i = p)"
    using rmap_reap_all [of sys RMAP_CHILD_MAX s] by blast
  obtain es2 where es2: "events (fold (rmap_unmap mappings paddings) [0..<MAPPINGS_MAX] ?s2) =
      events ?s2 @ es2" "set es2 \<subseteq> range Munmap"
    "forks (fold (rmap_unmap mappings paddings) [0..<MAPPINGS_MAX] ?s2) = forks ?s2"
    using rmap_unmap_all [of mappings paddings MAPPINGS_MAX ?s2] by blast
  let ?es = "es1 @ [Munmap_counters, Close_fd, Temp_dir_rm] @ es2"
  have "events (rmap_cleanup sys mappings paddings s) = events s @ ?es"
    using es1(1) es2(1) by (simp add: rmap_cleanup_def)
  moreover have "forks (rmap_cleanup sys mappings paddings s) = forks s"
    using es1(2) es2(3) by (simp add: rmap_cleanup_def)
  moreover have "Fork \<notin> set ?es" "Select \<notin> set ?es"
    using es1(3,4) es2(2) by auto
  moreover have "\<forall>p. Kill p SIGKILL \<in> set ?es \<longleftrightarrow> p > 0 \<and> (\<exists>i<RMAP_CHILD_MAX. pids s ! i = p)"
    using es1(5) es2(2) by auto
  ultimately show ?thesis by blast
qed

lemma count_list_spawn_events:
  "count_list (concat (map (\<lambda>k. [Fork, Setpgid (f k)]) xs)) Fork = length xs"
  by (induction xs) simp_all

lemma stress_rmap_fork_failure:
  assumes "i < RMAP_CHILD_MAX" and "\<forall>k<i. fork_ret sys k > 0" and "fork_ret sys i < 0"
  shows "\<exists>s'. stress_rmap fuel w sys c max_ops mappings paddings = Some (Returns EXIT_SUCCESS s') \<and>
     forks s' = Suc i \<and> count_list (events s') Fork = Suc i \<and>
     Pr_err_fork_failed (fork_errno sys i) \<in> set (events s') \<and> Select \<notin> set (events s') \<and>
     (\<forall>p. Kill p SIGKILL \<in> set (events s') \<longleftrightarrow> (\<exists>k<i. fork_ret sys k = p))"
proof -
  let ?s0 = "rmap_parent_start c"
  obtain s1 where s1: "rmap_spawn sys 0 ?s0 = (Fork_failure, s1)" "forks s1 = Suc i"
    "events s1 = events ?s0 @ concat (map (\<lambda>k. [Fork, Setpgid (fork_ret sys k)]) [0..<i]) @
             [Fork, Pr_err_fork_failed (fork_errno sys i)]"
    "\<forall>k<length (pids ?s0). pids s1 ! k = (if 0 \<le> k \<and> k \<le> i then fork_ret sys k else pids ?s0 ! k)"
    using rmap_spawn_failure [of 0 i ?s0 sys] assms by (auto simp: rmap_parent_start_def)
  have ev1: "events s1 = concat (map (\<lambda>k. [Fork, Setpgid (fork_ret sys k)]) [0..<i]) @
             [Fork, Pr_err_fork_failed (fork_errno sys i)]"
    using s1(3) by (simp add: rmap_parent_start_def)
  have pd: "pids s1 ! k = (if k \<le> i then fork_ret sys k else 0)" if "k < RMAP_CHILD_MAX" for k
    using s1(4) that by (simp add: rmap_parent_start_def)
  obtain es where es: "events (rmap_cleanup sys mappings paddings s1) = events s1 @ es"
     "forks (rmap_cleanup sys mappings paddings s1) = forks s1"
     "Fork \<notin> set es" "Select \<notin> set es"
     "\<forall>p. Kill p SIGKILL \<in> set es \<longleftrightarrow> p > 0 \<and> (\<exists>k<RMAP_CHILD_MAX. pids s1 ! k = p)"
    using rmap_cleanup_suffix [of sys mappings paddings s1] by blast
  have kills: "Kill p SIGKILL \<in> set (events s1 @ es) \<longleftrightarrow> (\<exists>k<i. fork_ret sys k = p)" for p
  proof -
    have "Kill p SIGKILL \<notin> set (events s1)" unfolding ev1 by auto
    moreover have "(p > 0 \<and> (\<exists>k<RMAP_CHILD_MAX. pids s1 ! k = p)) \<longleftrightarrow> (\<exists>k<i. fork_ret sys k = p)"
    proof
      assume "p > 0 \<and> (\<exists>k<RMAP_CHILD_MAX. pids s1 ! k = p)"
      then obtain k where k: "k < RMAP_CHILD_MAX" "pids s1 ! k = p" "p > 0" by blast
      then have "k \<le> i" "fork_ret sys k = p" using pd [of k] by (auto split: if_splits)
      moreover have "k \<noteq> i" using \<open>fork_ret sys k = p\<close> k(3) assms(3) by auto
      ultimately show "\<exists>k<i. fork_ret sys k = p" by (intro exI [of _ k]) simp
    next
      assume "\<exists>k<i. fork_ret sys k = p"
      then obtain k where k: "k < i" "fork_ret sys k = p" by blast
      then have "p > 0" using assms(2) by auto
      moreover have "k < RMAP_CHILD_MAX" "pids s1 ! k = p" using k assms(1) pd [of k] by auto
      ultimately show "p > 0 \<and> (\<exists>k<RMAP_CHILD_MAX. pids s1 ! k = p)" by blast
    qed
    ultimately show ?thesis using es(5) by auto
  qed
  have "count_list (events s1 @ es) Fork = Suc i"
    using es(3) by (simp add: ev1 count_list_spawn_events count_list_0_iff)
  moreover have "Select \<notin> set (events s1 @ es)" using es(4) by (auto simp: ev1)
  moreover have "Pr_err_fork_failed (fork_errno sys i) \<in> set (events s1 @ es)" by (simp add: ev1)
  ultimately show ?thesis
    using s1(1,2) es(1,2) kills
    by (intro exI [of _ "rmap_cleanup sys mappings paddings s1"]) (simp add: stress_rmap_def)
qed

text \<open>
  Claim C3, as amended. In the allocator supervisor a \<open>fork\<close> that fails with
  \<open>EAGAIN\<close> while the run flag reads set is retried at once, and this for as many
  failures in a row as there are (\<open>n\<close> of them give \<open>n\<close> retries); a \<open>fork\<close> that fails
  with another error, or with the flag clear, is reported and the supervisor leaves
  without another \<open>fork\<close>. In the mapping supervisor a failing \<open>fork\<close> is never
  retried, whatever the error: when the \<open>i\<close>-th spawn fails after \<open>i\<close> successes, the
  failure is reported, no further \<open>fork\<close> is made, the wait loop is skipped, and the
  cleanup sends \<open>SIGKILL\<close> to exactly the \<open>i\<close> children already spawned.
\<close>

theorem fork_failure_handling:
  "((\<forall>k<n. fork_ret sys (forks s + k) < 0 \<and> fork_errno sys (forks s + k) = EAGAIN \<and>
            do_run w (reads s + k)) \<longrightarrow>
      (\<exists>s'. stress_malloc_again (n + fuel) w sys s = stress_malloc_again fuel w sys s' \<and>
           forks s' = forks s + n \<and> events s' = events s @ replicate n Fork)) \<and>
   (fork_ret sys (forks s) < 0 \<and> (fork_errno sys (forks s) \<noteq> EAGAIN \<or> \<not> do_run w (reads s)) \<longrightarrow>
      (\<exists>s'. stress_malloc_again (Suc fuel) w sys s = Some (Parent_leaves s') \<and>
           forks s' = Suc (forks s) \<and>
           events s' = events s @ [Fork, Pr_err_fork_failed (fork_errno sys (forks s))])) \<and>
   (i < RMAP_CHILD_MAX \<and> (\<forall>k<i. fork_ret sys k > 0) \<and> fork_ret sys i < 0 \<longrightarrow>
      (\<exists>s'. stress_rmap fuel w sys c max_ops mappings paddings = Some (Returns EXIT_SUCCESS s') \<and>
           forks s' = Suc i \<and> count_list (events s') Fork = Suc i \<and>
           Pr_err_fork_failed (fork_errno sys i) \<in> set (events s') \<and>
           Select \<notin> set (events s') \<and>
           (\<forall>p. Kill p SIGKILL \<in> set (events s') \<longleftrightarrow> (\<exists>k<i. fork_ret sys k = p))))"
proof (intro conjI impI)
  assume "\<forall>k<n. fork_ret sys (forks s + k) < 0 \<and> fork_errno sys (forks s + k) = EAGAIN \<and>
            do_run w (reads s + k)"
  from malloc_again_retries [OF this, of fuel]
  show "\<exists>s'. stress_malloc_again (n + fuel) w sys s = stress_malloc_again fuel w sys s' \<and>
           forks s' = forks s + n \<and> events s' = events s @ replicate n Fork"
    by blast
next
  assume a: "fork_ret sys (forks s) < 0 \<and> (fork_errno sys (forks s) \<noteq> EAGAIN \<or> \<not> do_run w (reads s))"
  then have "stress_malloc_again (Suc fuel) w sys s =
     Some (Parent_leaves (emit [Pr_err_fork_failed (fork_errno sys (forks s))] (seen (forked s))))"
    using malloc_again_fork_fatal [of sys s w fuel] by blast
  then show "\<exists>s'. stress_malloc_again (Suc fuel) w sys s = Some (Parent_leaves s') \<and>
           forks s' = Suc (forks s) \<and>
           events s' = events s @ [Fork, Pr_err_fork_failed (fork_errno sys (forks s))]"
    by simp
next
  assume "i < RMAP_CHILD_MAX \<and> (\<forall>k<i. fork_ret sys k > 0) \<and> fork_ret sys i < 0"
  then show "\<exists>s'. stress_rmap fuel w sys c max_ops mappings paddings = Some (Returns EXIT_SUCCESS s') \<and>
           forks s' = Suc i \<and> count_list (events s') Fork = Suc i \<and>
           Pr_err_fork_failed (fork_errno sys i) \<in> set (events s') \<and>
           Select \<notin> set (events s') \<and>
           (\<forall>p. Kill p SIGKILL \<in> set (events s') \<longleftrightarrow> (\<exists>k<i. fork_ret sys k = p))"
    using stress_rmap_fork_failure [of i sys fuel w c max_ops mappings paddings] by blast
qed

text \<open>
  The claim as stated says one retry. With two \<open>EAGAIN\<close> failures in a row the
  allocator supervisor forks three times (two retries); the mapping supervisor, on an
  \<open>EAGAIN\<close> failure of its first \<open>fork\<close>, forks once (no retry).
\<close>

lemma eagain_twice:
  "stress_malloc_again 3 (steady_world 0) (scripted_system [(-1, EAGAIN), (-1, EAGAIN)] [])
     (malloc_parent_start 0) =
   Some (Parent_leaves
     \<lparr>reads = 2, draws = 0, counter = 0, forks = 3, waits = 1,
      events = [Fork, Fork, Fork, Setpgid 1002, Parent_died_alarm, Waitpid 1002],
      restarts = 0\<rparr>)"
  by (simp add: eval_nat_numeral malloc_again_unfold Let_def scripted_system_def malloc_parent_start_def
      steady_world_def opt_do_run_def forked_def emit_def seen_def waited_def WIFSIGNALED_def)

theorem fork_retry_counterexample:
  "(case stress_malloc_again 3 (steady_world 0)
            (scripted_system [(-1, EAGAIN), (-1, EAGAIN)] []) (malloc_parent_start 0) of
      Some (Parent_leaves s) \<Rightarrow> count_list (events s) Fork = 3
    | _ \<Rightarrow> False) \<and>
   (case stress_rmap 0 (steady_world 0) (scripted_system [(-1, EAGAIN)] []) 0 0
            some_windows some_paddings of
      Some (Returns r s) \<Rightarrow> count_list (events s) Fork = 1
    | _ \<Rightarrow> False)"
proof -
  have "\<exists>s'. stress_rmap 0 (steady_world 0) (scripted_system [(-1, EAGAIN)] []) 0 0
            some_windows some_paddings = Some (Returns EXIT_SUCCESS s') \<and>
          count_list (events s') Fork = Suc 0"
    using stress_rmap_fork_failure [of 0 "scripted_system [(-1, EAGAIN)] []" 0 "steady_world 0" 0 0
        some_windows some_paddings]
    by (auto simp: RMAP_CHILD_MAX_def scripted_system_def)
  then show ?thesis
    by (auto simp: eagain_twice)
qed

theorem fork_failure_handling_witness:
  "(\<exists>s'. stress_malloc_again (2 + 1) (steady_world 0)
            (scripted_system [(-1, EAGAIN), (-1, EAGAIN)] []) (malloc_parent_start 0) =
          stress_malloc_again 1 (steady_world 0)
            (scripted_system [(-1, EAGAIN), (-1, EAGAIN)] []) s' \<and>
          forks s' = 2 \<and> events s' = [Fork, Fork]) \<and>
   (\<exists>s'. stress_malloc_again (Suc 0) (steady_world 0)
            (scripted_system [(-1, 12)] []) (malloc_parent_start 0) = Some (Parent_leaves s') \<and>
          forks s' = 1 \<and> events s' = [Fork, Pr_err_fork_failed 12]) \<and>
   (\<exists>s'. stress_rmap 0 (steady_world 0) (scripted_system [(1000, 0), (1001, 0), (-1, EAGAIN)] [])
            0 0 some_windows some_paddings = Some (Returns EXIT_SUCCESS s') \<and>
          forks s' = 3 \<and> count_list (events s') Fork = 3 \<and>
          Pr_err_fork_failed EAGAIN \<in> set (events s') \<and> Select \<notin> set (events s') \<and>
          Kill 1000 SIGKILL \<in> set (events s') \<and> Kill 1001 SIGKILL \<in> set (events s') \<and>
          Kill 1002 SIGKILL \<notin> set (events s'))"
proof -
  let ?sys1 = "scripted_system [(-1, EAGAIN), (-1, EAGAIN)] []"
  let ?sys2 = "scripted_system [(-1, 12)] []"
  let ?sys3 = "scripted_system [(1000, 0), (1001, 0), (-1, EAGAIN)] []"
  have h1: "\<forall>k<2. fork_ret ?sys1 (forks (malloc_parent_start 0) + k) < 0 \<and>
       fork_errno ?sys1 (forks (malloc_parent_start 0) + k) = EAGAIN \<and>
       do_run (steady_world 0) (reads (malloc_parent_start 0) + k)"
    by (simp add: scripted_system_def malloc_parent_start_def steady_world_def less_Suc_eq
        numeral_2_eq_2)
  have h2: "fork_ret ?sys2 (forks (malloc_parent_start 0)) < 0 \<and>
      (fork_errno ?sys2 (forks (malloc_parent_start 0)) \<noteq> EAGAIN \<or>
       \<not> do_run (steady_world 0) (reads (malloc_parent_start 0)))"
    by (simp add: scripted_system_def malloc_parent_start_def EAGAIN_def)
  have h3: "2 < RMAP_CHILD_MAX \<and> (\<forall>k<2. fork_ret ?sys3 k > 0) \<and> fork_ret ?sys3 2 < 0"
    by (simp add: scripted_system_def RMAP_CHILD_MAX_def less_Suc_eq numeral_2_eq_2)
  have k3: "(\<exists>k<2. fork_ret ?sys3 k = 1000) \<and> (\<exists>k<2. fork_ret ?sys3 k = 1001) \<and>
      \<not> (\<exists>k<2. fork_ret ?sys3 k = 1002)"
    by (auto simp: scripted_system_def less_Suc_eq numeral_2_eq_2)
  have st: "forks (malloc_parent_start 0) = 0" "events (malloc_parent_start 0) = []"
    by (simp_all add: malloc_parent_start_def)
  have e3: "fork_errno ?sys3 2 = EAGAIN" "fork_errno ?sys2 0 = 12"
    by (simp_all add: scripted_system_def)
  have w1: "\<exists>s'. stress_malloc_again (2 + 1) (steady_world 0) ?sys1 (malloc_parent_start 0) =
          stress_malloc_again 1 (steady_world 0) ?sys1 s' \<and>
          forks s' = 2 \<and> events s' = [Fork, Fork]"
    using fork_failure_handling [of 2 ?sys1 "malloc_parent_start 0" "steady_world 0" 1 0 0 0
        some_windows some_paddings] h1
    by (simp add: st numeral_2_eq_2)
  have w2: "\<exists>s'. stress_malloc_again (Suc 0) (steady_world 0) ?sys2 (malloc_parent_start 0) =
          Some (Parent_leaves s') \<and> forks s' = 1 \<and> events s' = [Fork, Pr_err_fork_failed 12]"
    using fork_failure_handling [of 0 ?sys2 "malloc_parent_start 0" "steady_world 0" 0 0 0 0
        some_windows some_paddings] h2
    by (simp add: st e3)
  have w3: "\<exists>s'. stress_rmap 0 (steady_world 0) ?sys3 0 0 some_windows some_paddings =
            Some (Returns EXIT_SUCCESS s') \<and>
          forks s' = 3 \<and> count_list (events s') Fork = 3 \<and>
          Pr_err_fork_failed EAGAIN \<in> set (events s') \<and> Select \<notin> set (events s') \<and>
          Kill 1000 SIGKILL \<in> set (events s') \<and> Kill 1001 SIGKILL \<in> set (events s') \<and>
          Kill 1002 SIGKILL \<notin> set (events s')"
  proof -
    from fork_failure_handling [of 0 ?sys3 "malloc_parent_start 0" "steady_world 0" 0 2 0 0
        some_windows some_paddings, THEN conjunct2, THEN conjunct2, THEN mp, OF h3]
    obtain s' where s':
      "stress_rmap 0 (steady_world 0) ?sys3 0 0 some_windows some_paddings =
         Some (Returns EXIT_SUCCESS s')"
      "forks s' = Suc 2" "count_list (events s') Fork = Suc 2"
      "Pr_err_fork_failed (fork_errno ?sys3 2) \<in> set (events s')"
      "Select \<notin> set (events s')"
      "\<forall>p. Kill p SIGKILL \<in> set (events s') \<longleftrightarrow> (\<exists>k<2. fork_ret ?sys3 k = p)"
      by blast
    have "Kill 1000 SIGKILL \<in> set (events s')" "Kill 1001 SIGKILL \<in> set (events s')"
      "Kill 1002 SIGKILL \<notin> set (events s')"
      using s'(6) k3 by blast+
    then show ?thesis
      using s'(1,2,3,4,5) e3(1) by (intro exI [of _ s']) simp
  qed
  show ?thesis
    using w1 w2 w3 by blast
qed

text \<open>
  Claim C9, as amended. The mapping supervisor's cleanup sends \<open>SIGKILL\<close> to each
  spawned child first and then waits for it. In both supervisors a failed wait is
  followed by \<open>SIGTERM\<close>, at once by \<open>SIGKILL\<close>, and by one more wait; a wait that
  failed with \<open>EINTR\<close> is not logged, any other failure is logged at debug level.
\<close>

theorem cancellation_signals:
  "(pid > 0 \<longrightarrow>
      events (rmap_reap sys pid s) =
        events s @ [Kill pid SIGKILL, Waitpid pid] @
          (if waitpid_ret sys (waits s) < 0 then
             (if waitpid_errno sys (waits s) \<noteq> EINTR
              then [Pr_dbg_waitpid (waitpid_errno sys (waits s))] else []) @
             [Kill pid SIGTERM, Kill pid SIGKILL, Waitpid pid]
           else [])) \<and>
   (fork_ret sys (forks t) > 0 \<and> waitpid_ret sys (waits t) < 0 \<longrightarrow>
      (\<exists>t'. stress_malloc_again (Suc fuel) w sys t = Some (Parent_leaves t') \<and>
         events t' =
           events t @ [Fork, Setpgid (fork_ret sys (forks t)), Parent_died_alarm,
             Waitpid (fork_ret sys (forks t))] @
           (if waitpid_errno sys (waits t) \<noteq> EINTR
            then [Pr_dbg_waitpid (waitpid_errno sys (waits t))] else []) @
           [Kill (fork_ret sys (forks t)) SIGTERM, Kill (fork_ret sys (forks t)) SIGKILL,
            Waitpid (fork_ret sys (forks t))]))"
  using rmap_reap_events [of pid sys s] malloc_again_wait_fails [of sys t fuel w]
  by blast

text \<open>
  The claim as stated has \<open>SIGKILL\<close> only after a \<open>SIGTERM\<close> that proved ineffective.
  The mapping supervisor's cleanup of child 1000 sends \<open>SIGKILL\<close> and nothing before
  it; the allocator supervisor, after an interrupted wait, sends \<open>SIGTERM\<close> and
  \<open>SIGKILL\<close> back to back.
\<close>

theorem cancellation_signals_counterexample:
  "events (rmap_reap (calm_system 0) 1000 (rmap_parent_start 0)) =
     [Kill 1000 SIGKILL, Waitpid 1000] \<and>
   (case stress_malloc_again 1 (steady_world 0) (scripted_system [] [(-1, EINTR, Exited 0)])
           (malloc_parent_start 0) of
      Some (Parent_leaves s) \<Rightarrow>
        events s = [Fork, Setpgid 1000, Parent_died_alarm, Waitpid 1000,
                    Kill 1000 SIGTERM, Kill 1000 SIGKILL, Waitpid 1000]
    | _ \<Rightarrow> False)"
proof -
  have "events (rmap_reap (calm_system 0) 1000 (rmap_parent_start 0)) =
     [Kill 1000 SIGKILL, Waitpid 1000]"
    using rmap_reap_events [of 1000 "calm_system 0" "rmap_parent_start 0"]
    by (simp add: calm_system_def rmap_parent_start_def)
  moreover have "\<exists>s. stress_malloc_again 1 (steady_world 0)
        (scripted_system [] [(-1, EINTR, Exited 0)]) (malloc_parent_start 0) = Some (Parent_leaves s) \<and>
      events s = [Fork, Setpgid 1000, Parent_died_alarm, Waitpid 1000,
                    Kill 1000 SIGTERM, Kill 1000 SIGKILL, Waitpid 1000]"
    using malloc_again_wait_fails [of "scripted_system [] [(-1, EINTR, Exited 0)]"
        "malloc_parent_start 0" 0 "steady_world 0"]
    by (simp add: scripted_system_def malloc_parent_start_def)
  ultimately show ?thesis by auto
qed

theorem cancellation_signals_witness:
  "events (rmap_reap (scripted_system [] [(-1, 10, Exited 0)]) 1000 (rmap_parent_start 0)) =
     [Kill 1000 SIGKILL, Waitpid 1000, Pr_dbg_waitpid 10,
      Kill 1000 SIGTERM, Kill 1000 SIGKILL, Waitpid 1000] \<and>
   (\<exists>t'. stress_malloc_again (Suc 0) (steady_world 0)
            (scripted_system [] [(-1, EINTR, Exited 0)]) (malloc_parent_start 0) =
          Some (Parent_leaves t') \<and>
        events t' = [Fork, Setpgid 1000, Parent_died_alarm, Waitpid 1000,
                     Kill 1000 SIGTERM, Kill 1000 SIGKILL, Waitpid 1000])"
proof -
  let ?sys1 = "scripted_system [] [(-1, 10, Exited 0)]"
  let ?sys2 = "scripted_system [] [(-1, EINTR, Exited 0)]"
  have h1: "(1000 :: int) > 0" by simp
  have h2: "fork_ret ?sys2 (forks (malloc_parent_start 0)) > 0 \<and>
      waitpid_ret ?sys2 (waits (malloc_parent_start 0)) < 0"
    by (simp add: scripted_system_def malloc_parent_start_def)
  have "events (rmap_reap ?sys1 1000 (rmap_parent_start 0)) =
     [Kill 1000 SIGKILL, Waitpid 1000, Pr_dbg_waitpid 10,
      Kill 1000 SIGTERM, Kill 1000 SIGKILL, Waitpid 1000]"
    using cancellation_signals [of 1000 ?sys1 "rmap_parent_start 0" "malloc_parent_start 0" 0
        "steady_world 0", THEN conjunct1, THEN mp, OF h1]
    by (simp add: scripted_system_def rmap_parent_start_def EINTR_def)
  moreover have "\<exists>t'. stress_malloc_again (Suc 0) (steady_world 0) ?sys2 (malloc_parent_start 0) =
          Some (Parent_leaves t') \<and>
        events t' = [Fork, Setpgid 1000, Parent_died_alarm, Waitpid 1000,
                     Kill 1000 SIGTERM, Kill 1000 SIGKILL, Waitpid 1000]"
    using cancellation_signals [of 1000 ?sys2 "rmap_parent_start 0" "malloc_parent_start 0" 0
        "steady_world 0", THEN conjunct2, THEN mp, OF h2]
    by (simp add: scripted_system_def malloc_parent_start_def)
  ultimately show ?thesis by blast
qed

section \<open>Properties of the allocator stressor's worker\<close>

lemma table_ok_seen [simp]: "table_ok (seen s) = table_ok s"
  by (simp add: table_ok_def seen_def)

lemma table_ok_drawn [simp]: "table_ok (drawn s) = table_ok s"
  by (simp add: table_ok_def drawn_def)

lemma table_ok_asked [simp]: "table_ok (asked s) = table_ok s"
  by (simp add: table_ok_def asked_def)

lemma table_ok_counted [simp]: "table_ok (counted s) = table_ok s"
  by (simp add: table_ok_def counted_def)

lemma table_ok_touch [simp]: "table_ok (mincore_touch_pages p len s) = table_ok s"
  by (simp add: table_ok_def mincore_touch_pages_def)

lemma addr_simps [simp]:
  "addr (seen s) = addr s"
  "addr (drawn s) = addr s"
  "addr (asked s) = addr s"
  "addr (counted s) = addr s"
  "addr (mincore_touch_pages p len s) = addr s"
  "addr (c_free p s) = addr s"
  "addr (snd (fresh_block len s)) = addr s"
  "addr (store i p s) = (addr s)[i := p]"
  by (simp_all add: seen_def drawn_def asked_def counted_def mincore_touch_pages_def c_free_def
      fresh_block_def store_def)

lemma list_update_same: "xs ! i = v \<Longrightarrow> xs[i := v] = xs"
  by (metis list_update_id)

lemma table_ok_release:
  assumes "table_ok s" and "i < length (addr s)"
  shows "table_ok (store i 0 (c_free (addr s ! i) s))"
proof (cases "addr s ! i = 0")
  case True
  then have "store i 0 (c_free (addr s ! i) s) = s"
    by (simp add: store_def c_free_def list_update_same)
  then show ?thesis using assms(1) by simp
next
  case False
  let ?p = "addr s ! i"
  have lv: "live s ?p \<noteq> None" using assms False by (auto simp: table_ok_def)
  have uniq: "\<And>j. j < length (addr s) \<Longrightarrow> addr s ! j = ?p \<Longrightarrow> j = i"
    using assms False unfolding table_ok_def by metis
  have st: "store i 0 (c_free ?p s) = s\<lparr>live := (live s)(?p := None), addr := (addr s)[i := 0]\<rparr>"
    using False lv by (simp add: store_def c_free_def)
  let ?t = "s\<lparr>live := (live s)(?p := None), addr := (addr s)[i := 0]\<rparr>"
  have c1: "bad_frees ?t = 0 \<and> 0 < brk ?t" using assms(1) by (simp add: table_ok_def)
  have c2: "\<forall>k<length (addr ?t). addr ?t ! k \<noteq> 0 \<longrightarrow> live ?t (addr ?t ! k) \<noteq> None"
  proof (intro allI impI)
    fix k assume k: "k < length (addr ?t)" "addr ?t ! k \<noteq> 0"
    then have ki: "k \<noteq> i" by auto
    then have "addr s ! k \<noteq> ?p" using uniq [of k] k(1) by auto
    moreover have "live s (addr s ! k) \<noteq> None"
      using assms(1) k ki by (auto simp: table_ok_def)
    ultimately show "live ?t (addr ?t ! k) \<noteq> None"
      using ki by auto
  qed
  have c3: "\<forall>p. live ?t p \<noteq> None \<longrightarrow>
      p \<noteq> 0 \<and> p < brk ?t \<and> (\<exists>k<length (addr ?t). addr ?t ! k = p)"
  proof (intro allI impI)
    fix p assume "live ?t p \<noteq> None"
    then have p: "p \<noteq> ?p" "live s p \<noteq> None" by (auto split: if_splits)
    then obtain j where j: "j < length (addr s)" "addr s ! j = p" "p \<noteq> 0" "p < brk s"
      using assms(1) unfolding table_ok_def by blast
    then have "j \<noteq> i" using p by auto
    then have "j < length (addr ?t) \<and> addr ?t ! j = p" using j by simp
    then show "p \<noteq> 0 \<and> p < brk ?t \<and> (\<exists>k<length (addr ?t). addr ?t ! k = p)"
      using j by auto
  qed
  have c4: "\<forall>k<length (addr ?t). \<forall>j<length (addr ?t).
      addr ?t ! k = addr ?t ! j \<and> addr ?t ! k \<noteq> 0 \<longrightarrow> k = j"
  proof (intro allI impI)
    fix k j assume a: "k < length (addr ?t)" "j < length (addr ?t)"
      "addr ?t ! k = addr ?t ! j \<and> addr ?t ! k \<noteq> 0"
    then have "k \<noteq> i" "j \<noteq> i" by (auto simp: nth_list_update split: if_splits)
    then have "addr s ! k = addr s ! j \<and> addr s ! k \<noteq> 0" using a by simp
    then show "k = j" using a(1,2) assms(1) unfolding table_ok_def by simp
  qed
  show ?thesis
    unfolding st table_ok_def using c1 c2 c3 c4 by blast
qed

lemma table_ok_acquire:
  assumes "table_ok s" and "i < length (addr s)" and "addr s ! i = 0"
  shows "table_ok (store i (brk s) (snd (fresh_block len s)))"
proof -
  let ?b = "brk s"
  let ?t = "s\<lparr>live := (live s)(?b := Some len), brk := Suc ?b, addr := (addr s)[i := ?b]\<rparr>"
  have st: "store i ?b (snd (fresh_block len s)) = ?t"
    by (simp add: store_def fresh_block_def)
  have b0: "0 < ?b" using assms(1) by (simp add: table_ok_def)
  have fresh: "live s ?b = None" using assms(1) unfolding table_ok_def by fastforce
  have notin: "\<And>j. j < length (addr s) \<Longrightarrow> addr s ! j \<noteq> ?b"
  proof
    fix j assume j: "j < length (addr s)" "addr s ! j = ?b"
    then have "addr s ! j \<noteq> 0" using b0 by simp
    then have "live s (addr s ! j) \<noteq> None"
      using assms(1) j(1) unfolding table_ok_def by blast
    then show False using j fresh by simp
  qed
  have c1: "bad_frees ?t = 0 \<and> 0 < brk ?t" using assms(1) by (simp add: table_ok_def)
  have c2: "\<forall>k<length (addr ?t). addr ?t ! k \<noteq> 0 \<longrightarrow> live ?t (addr ?t ! k) \<noteq> None"
  proof (intro allI impI)
    fix k assume k: "k < length (addr ?t)" "addr ?t ! k \<noteq> 0"
    show "live ?t (addr ?t ! k) \<noteq> None"
    proof (cases "k = i")
      case True
      then show ?thesis using assms(2) by simp
    next
      case False
      then have "live s (addr s ! k) \<noteq> None" using assms(1) k by (auto simp: table_ok_def)
      then show ?thesis using False by simp
    qed
  qed
  have c3: "\<forall>p. live ?t p \<noteq> None \<longrightarrow>
      p \<noteq> 0 \<and> p < brk ?t \<and> (\<exists>k<length (addr ?t). addr ?t ! k = p)"
  proof (intro allI impI)
    fix p assume lp: "live ?t p \<noteq> None"
    show "p \<noteq> 0 \<and> p < brk ?t \<and> (\<exists>k<length (addr ?t). addr ?t ! k = p)"
    proof (cases "p = ?b")
      case True
      then have "i < length (addr ?t) \<and> addr ?t ! i = p" using assms(2) by simp
      then show ?thesis using True b0 by auto
    next
      case False
      then have "live s p \<noteq> None" using lp by simp
      then obtain j where j: "j < length (addr s)" "addr s ! j = p" "p \<noteq> 0" "p < brk s"
        using assms(1) unfolding table_ok_def by blast
      then have "j \<noteq> i" using assms(3) by auto
      then have "j < length (addr ?t) \<and> addr ?t ! j = p" using j by simp
      then show ?thesis using j by auto
    qed
  qed
  have c4: "\<forall>k<length (addr ?t). \<forall>j<length (addr ?t).
      addr ?t ! k = addr ?t ! j \<and> addr ?t ! k \<noteq> 0 \<longrightarrow> k = j"
  proof (intro allI impI)
    fix k j assume a: "k < length (addr ?t)" "j < length (addr ?t)"
      "addr ?t ! k = addr ?t ! j \<and> addr ?t ! k \<noteq> 0"
    show "k = j"
    proof (cases "k = i \<or> j = i")
      case True
      then show ?thesis
        using a notin [of k] notin [of j] by (auto simp: nth_list_update split: if_splits)
    next
      case False
      then have "addr s ! k = addr s ! j \<and> addr s ! k \<noteq> 0" using a by simp
      then show ?thesis using a(1,2) assms(1) unfolding table_ok_def by simp
    qed
  qed
  show ?thesis
    unfolding st table_ok_def using c1 c2 c3 c4 by blast
qed

lemma table_ok_resize:
  assumes "table_ok s" and "i < length (addr s)" and "addr s ! i \<noteq> 0"
  shows "table_ok (store i (addr s ! i) (s\<lparr>live := (live s)(addr s ! i := Some len)\<rparr>))"
proof -
  let ?p = "addr s ! i"
  have st: "store i ?p (s\<lparr>live := (live s)(?p := Some len)\<rparr>) = s\<lparr>live := (live s)(?p := Some len)\<rparr>"
    by (simp add: store_def)
  have lv: "live s ?p \<noteq> None" using assms by (auto simp: table_ok_def)
  show ?thesis
    unfolding st using assms(1) lv by (auto simp: table_ok_def)
qed

lemma table_ok_move:
  assumes "table_ok s" and "i < length (addr s)" and "addr s ! i \<noteq> 0"
  shows "table_ok (store i (brk s)
           (snd (fresh_block len (s\<lparr>live := (live s)(addr s ! i := None)\<rparr>))))"
proof -
  let ?u = "store i 0 (c_free (addr s ! i) s)"
  have lv: "live s (addr s ! i) \<noteq> None" using assms by (auto simp: table_ok_def)
  have u: "table_ok ?u" using assms(1,2) by (rule table_ok_release)
  have "table_ok (store i (brk ?u) (snd (fresh_block len ?u)))"
    using u assms(2) by (intro table_ok_acquire) simp_all
  moreover have "store i (brk ?u) (snd (fresh_block len ?u)) =
      store i (brk s) (snd (fresh_block len (s\<lparr>live := (live s)(addr s ! i := None)\<rparr>)))"
    using assms(3) lv by (simp add: store_def fresh_block_def c_free_def)
  ultimately show ?thesis by simp
qed

lemma c_malloc_cases:
  "c_malloc heap_says len s = (0, asked s) \<or>
   c_malloc heap_says len s = (brk s, snd (fresh_block len (asked s)))"
  by (cases "heap_says (asks s)") (simp_all add: c_malloc_def fresh_block_def asked_def)

lemma c_calloc_cases:
  "c_calloc heap_says n sz s = (0, asked s) \<or>
   c_calloc heap_says n sz s = (brk s, snd (fresh_block (n * sz) (asked s)))"
  using c_malloc_cases [of heap_says "n * sz" s] by (auto simp: c_calloc_def)

lemma length_addr_simps [simp]:
  "length (addr (store i p s)) = length (addr s)"
  by simp

lemma malloc_occupied_ok:
  assumes "table_ok s" and "i < length (addr s)" and "addr s ! i \<noteq> 0"
    and "malloc_occupied w heap_says opt_malloc_bytes i action s = Next s'"
  shows "table_ok s' \<and> length (addr s') = length (addr s)"
proof (cases "action \<noteq> 0")
  case True
  then have "s' = counted (store i 0 (c_free (addr s ! i) s))"
    using assms(4) by (simp add: malloc_occupied_def)
  then show ?thesis using table_ok_release [OF assms(1,2)] by simp
next
  case False
  then obtain len where sz: "stress_alloc_size w opt_malloc_bytes s = Some (len, drawn s)"
    using assms(4)
    by (auto simp: malloc_occupied_def stress_alloc_size_def Let_def split: if_splits)
  let ?s1 = "drawn s"
  have s1: "table_ok ?s1" "i < length (addr ?s1)" "addr ?s1 ! i \<noteq> 0" "addr ?s1 ! i = addr s ! i"
    using assms(1,2,3) by simp_all
  show ?thesis
  proof (cases "heap_says (asks ?s1)")
    case Refused
    then have "s' = asked ?s1"
      using assms(4) False sz by (simp add: malloc_occupied_def c_realloc_def)
    then show ?thesis using assms(1) by simp
  next
    case Served
    then have "s' = counted (mincore_touch_pages (addr s ! i) len
        (store i (addr s ! i) ((asked ?s1)\<lparr>live := (live ?s1)(addr s ! i := Some len)\<rparr>)))"
      using assms(3,4) False sz by (simp add: malloc_occupied_def c_realloc_def)
    moreover have "table_ok (store i (addr (asked ?s1) ! i)
        ((asked ?s1)\<lparr>live := (live (asked ?s1))(addr (asked ?s1) ! i := Some len)\<rparr>))"
      using assms(1,2,3) by (intro table_ok_resize) simp_all
    moreover have "live (asked ?s1) = live ?s1" by (simp add: asked_def)
    ultimately show ?thesis by simp
  next
    case Moved
    have b0: "brk ?s1 \<noteq> 0" using assms(1) by (simp add: table_ok_def drawn_def)
    have fb: "fst (fresh_block len t) = brk t" for t by (simp add: fresh_block_def)
    have bk: "brk ((asked ?s1)\<lparr>live := (live ?s1)(addr s ! i := None)\<rparr>) = brk ?s1"
      by (simp add: asked_def)
    have "s' = counted (mincore_touch_pages (brk ?s1) len
        (store i (brk ?s1)
          (snd (fresh_block len ((asked ?s1)\<lparr>live := (live ?s1)(addr s ! i := None)\<rparr>)))))"
      using assms(4) False sz Moved b0
      by (simp add: malloc_occupied_def c_realloc_def split_beta fb bk)
    moreover have "table_ok (store i (brk (asked ?s1))
        (snd (fresh_block len ((asked ?s1)\<lparr>live := (live (asked ?s1))(addr (asked ?s1) ! i := None)\<rparr>))))"
      using assms(1,2,3) by (intro table_ok_move) simp_all
    moreover have "live (asked ?s1) = live ?s1" "brk (asked ?s1) = brk ?s1"
      by (simp_all add: asked_def)
    ultimately show ?thesis by simp
  qed
qed

lemma malloc_empty_ok:
  assumes "table_ok s" and "i < length (addr s)" and "addr s ! i = 0"
    and "malloc_empty w heap_says opt_malloc_bytes i rnd action do_calloc s = Next s'"
  shows "table_ok s' \<and> length (addr s') = length (addr s)"
proof (cases "action \<noteq> 0")
  case False
  then show ?thesis using assms(1,4) by (simp add: malloc_empty_def)
next
  case True
  then obtain len where sz: "stress_alloc_size w opt_malloc_bytes s = Some (len, drawn s)"
    using assms(4)
    by (auto simp: malloc_empty_def stress_alloc_size_def Let_def split: if_splits)
  let ?s1 = "drawn s"
  define len1 where "len1 = (if do_calloc = 0 then calloc_pieces rnd * (len div calloc_pieces rnd)
     else len)"
  define r where "r = (if do_calloc = 0
     then c_calloc heap_says (calloc_pieces rnd) (len div calloc_pieces rnd) ?s1
     else c_malloc heap_says len ?s1)"
  have r: "r = (0, asked ?s1) \<or> r = (brk ?s1, snd (fresh_block len1 (asked ?s1)))"
    using c_calloc_cases [of heap_says "calloc_pieces rnd" "len div calloc_pieces rnd" ?s1]
      c_malloc_cases [of heap_says len ?s1]
    by (auto simp: r_def len1_def)
  have "malloc_empty w heap_says opt_malloc_bytes i rnd action do_calloc s = (if fst r \<noteq> 0
      then Next (mincore_touch_pages (fst r) len1 (counted (store i (fst r) (snd r))))
      else Next (store i (fst r) (snd r)))"
    using True sz
    by (cases "do_calloc = 0") (simp_all add: malloc_empty_def Let_def split_beta r_def len1_def)
  then have res: "Next s' = (if fst r \<noteq> 0
      then Next (mincore_touch_pages (fst r) len1 (counted (store i (fst r) (snd r))))
      else Next (store i (fst r) (snd r)))"
    using assms(4) by simp
  have b0: "brk ?s1 \<noteq> 0" using assms(1) by (simp add: table_ok_def drawn_def)
  from r show ?thesis
  proof
    assume "r = (0, asked ?s1)"
    then have "s' = store i 0 (asked ?s1)" using res by simp
    moreover have "store i 0 (asked ?s1) = asked ?s1"
      using assms(3) by (simp add: store_def list_update_same)
    ultimately show ?thesis using assms(1) by simp
  next
    assume rr: "r = (brk ?s1, snd (fresh_block len1 (asked ?s1)))"
    then have "s' = mincore_touch_pages (brk ?s1) len1
        (counted (store i (brk ?s1) (snd (fresh_block len1 (asked ?s1)))))"
      using res b0 by simp
    moreover have "table_ok (store i (brk (asked ?s1)) (snd (fresh_block len1 (asked ?s1))))"
      using assms(1,2,3) by (intro table_ok_acquire) simp_all
    moreover have "brk (asked ?s1) = brk ?s1" by (simp add: asked_def)
    ultimately show ?thesis by simp
  qed
qed

lemma malloc_iteration_ok:
  assumes "table_ok s" and "length (addr s) = unat opt_malloc_max"
    and "malloc_iteration w heap_says opt_malloc_bytes opt_malloc_max s = Next s' \<or>
         malloc_iteration w heap_says opt_malloc_bytes opt_malloc_max s = Abort s'"
  shows "table_ok s' \<and> length (addr s') = length (addr s)"
proof -
  have nz: "opt_malloc_max \<noteq> 0"
    using assms(3) by (auto simp: malloc_iteration_def Let_def)
  then have "0 < unat opt_malloc_max" by (simp add: unat_gt_0)
  define i where "i = unat (mwc32 w (draws s)) mod unat opt_malloc_max"
  have i: "i < length (addr s)" using assms(2) \<open>0 < unat opt_malloc_max\<close> by (simp add: i_def)
  let ?s1 = "seen (drawn s)"
  have s1: "table_ok ?s1" "i < length (addr ?s1)" "addr ?s1 ! i = addr s ! i"
    using assms(1) i by simp_all
  show ?thesis
  proof (cases "opt_do_run w (drawn s)")
    case False
    then have "s' = ?s1" using assms(3) nz by (simp add: malloc_iteration_def Let_def)
    then show ?thesis using assms(1) by simp
  next
    case True
    show ?thesis
    proof (cases "addr s ! i = 0")
      case e: True
      then have "malloc_empty w heap_says opt_malloc_bytes i (mwc32 w (draws s))
          (drop_bit 12 (mwc32 w (draws s)) AND 1) (drop_bit 14 (mwc32 w (draws s)) AND 0x1f) ?s1 =
          Next s' \<or>
         malloc_empty w heap_says opt_malloc_bytes i (mwc32 w (draws s))
          (drop_bit 12 (mwc32 w (draws s)) AND 1) (drop_bit 14 (mwc32 w (draws s)) AND 0x1f) ?s1 =
          Abort s'"
        using assms(3) nz True by (simp add: malloc_iteration_def Let_def i_def)
      moreover have "malloc_empty w heap_says opt_malloc_bytes i rnd a d t \<noteq> Abort s'" for rnd a d t
        by (auto simp: malloc_empty_def Let_def split_beta split: option.splits)
      ultimately show ?thesis
        using malloc_empty_ok [of ?s1 i w heap_says opt_malloc_bytes] s1 e by auto
    next
      case o: False
      then have "malloc_occupied w heap_says opt_malloc_bytes i
          (drop_bit 12 (mwc32 w (draws s)) AND 1) ?s1 = Next s' \<or>
         malloc_occupied w heap_says opt_malloc_bytes i
          (drop_bit 12 (mwc32 w (draws s)) AND 1) ?s1 = Abort s'"
        using assms(3) nz True by (simp add: malloc_iteration_def Let_def i_def)
      moreover have "malloc_occupied w heap_says opt_malloc_bytes i a t \<noteq> Abort s'" for a t
        by (auto simp: malloc_occupied_def Let_def split_beta split: option.splits)
      ultimately show ?thesis
        using malloc_occupied_ok [of ?s1 i w heap_says opt_malloc_bytes] s1 o by auto
    qed
  qed
qed

lemma malloc_loop_ok:
  assumes "table_ok s" and "length (addr s) = unat opt_malloc_max"
    and "malloc_loop fuel w heap_says opt_malloc_bytes opt_malloc_max max_ops s = Some (Next s') \<or>
         malloc_loop fuel w heap_says opt_malloc_bytes opt_malloc_max max_ops s = Some (Abort s')"
  shows "table_ok s' \<and> length (addr s') = unat opt_malloc_max"
  using assms
proof (induction fuel arbitrary: s)
  case 0
  then show ?case by simp
next
  case (Suc fuel)
  show ?case
  proof (cases "malloc_iteration w heap_says opt_malloc_bytes opt_malloc_max s")
    case Trap
    then show ?thesis using Suc.prems(3) by simp
  next
    case (Abort s1)
    then have "s' = s1" using Suc.prems(3) by simp
    then show ?thesis
      using malloc_iteration_ok [OF Suc.prems(1,2), of w heap_says opt_malloc_bytes s'] Abort
        Suc.prems(2)
      by simp
  next
    case (Next s1)
    then have ok1: "table_ok s1" "length (addr s1) = unat opt_malloc_max"
      using malloc_iteration_ok [OF Suc.prems(1,2), of w heap_says opt_malloc_bytes s1]
        Suc.prems(2)
      by simp_all
    show ?thesis
    proof (cases "opt_do_run w s1 \<and> (max_ops = 0 \<or> counter s1 < max_ops)")
      case True
      then have "malloc_loop fuel w heap_says opt_malloc_bytes opt_malloc_max max_ops (seen s1) =
            Some (Next s') \<or>
          malloc_loop fuel w heap_says opt_malloc_bytes opt_malloc_max max_ops (seen s1) =
            Some (Abort s')"
        using Suc.prems(3) Next by simp
      then show ?thesis using Suc.IH [of "seen s1"] ok1 by simp
    next
      case False
      then have "s' = seen s1" using Suc.prems(3) Next by auto
      then show ?thesis using ok1 by simp
    qed
  qed
qed

lemma free_some:
  assumes "table_ok s" and "n \<le> length (addr s)"
  shows "addr (fold (\<lambda>j s. c_free (addr s ! j) s) [0..<n] s) = addr s \<and>
         bad_frees (fold (\<lambda>j s. c_free (addr s ! j) s) [0..<n] s) = 0 \<and>
         (\<forall>p. live (fold (\<lambda>j s. c_free (addr s ! j) s) [0..<n] s) p \<noteq> None \<longleftrightarrow>
              live s p \<noteq> None \<and> (\<forall>j<n. addr s ! j \<noteq> p))"
  using assms(2)
proof (induction n)
  case 0
  then show ?case using assms(1) by (simp add: table_ok_def)
next
  case (Suc n)
  let ?t = "fold (\<lambda>j s. c_free (addr s ! j) s) [0..<n] s"
  let ?q = "addr s ! n"
  have ih: "addr ?t = addr s" "bad_frees ?t = 0"
    "\<forall>p. live ?t p \<noteq> None \<longleftrightarrow> live s p \<noteq> None \<and> (\<forall>j<n. addr s ! j \<noteq> p)"
    using Suc by simp_all
  have step: "fold (\<lambda>j s. c_free (addr s ! j) s) [0..<Suc n] s = c_free ?q ?t"
    using ih(1) by simp
  show ?case
  proof (cases "?q = 0")
    case True
    have "\<forall>p. live s p \<noteq> None \<longrightarrow> p \<noteq> 0" using assms(1) by (simp add: table_ok_def)
    then have "\<forall>p. (live s p \<noteq> None \<and> (\<forall>j<Suc n. addr s ! j \<noteq> p)) \<longleftrightarrow>
        (live s p \<noteq> None \<and> (\<forall>j<n. addr s ! j \<noteq> p))"
      using True by (auto simp: less_Suc_eq)
    then show ?thesis
      unfolding step using True ih by (simp add: c_free_def)
  next
    case False
    have n: "n < length (addr s)" using Suc.prems by simp
    have "live s ?q \<noteq> None" using assms(1) n False by (auto simp: table_ok_def)
    moreover have "\<forall>j<n. addr s ! j \<noteq> ?q"
    proof (intro allI impI notI)
      fix j assume j: "j < n" "addr s ! j = ?q"
      then have "j < length (addr s)" using n by simp
      then have "j = n" using assms(1) j n False unfolding table_ok_def by metis
      then show False using j by simp
    qed
    ultimately have lq: "live ?t ?q \<noteq> None" using ih(3) by blast
    have st: "c_free ?q ?t = ?t\<lparr>live := (live ?t)(?q := None)\<rparr>"
      using False lq by (simp add: c_free_def)
    have "\<forall>p. ((live ?t)(?q := None)) p \<noteq> None \<longleftrightarrow>
        live s p \<noteq> None \<and> (\<forall>j<Suc n. addr s ! j \<noteq> p)"
      using ih(3) by (auto simp: less_Suc_eq)
    then show ?thesis
      unfolding step st using ih(1,2) by simp
  qed
qed

lemma free_all_empties:
  assumes "table_ok s" and "length (addr s) = unat opt_malloc_max"
  shows "live (free_all opt_malloc_max s) = (\<lambda>p. None) \<and>
         bad_frees (free_all opt_malloc_max s) = 0 \<and>
         addr (free_all opt_malloc_max s) = addr s"
proof -
  let ?t = "free_all opt_malloc_max s"
  have f: "addr ?t = addr s" "bad_frees ?t = 0"
    "\<forall>p. live ?t p \<noteq> None \<longleftrightarrow> live s p \<noteq> None \<and> (\<forall>j<length (addr s). addr s ! j \<noteq> p)"
    using free_some [OF assms(1), of "length (addr s)"] assms(2) by (simp_all add: free_all_def)
  have "live ?t p = None" for p
  proof (rule ccontr)
    assume "live ?t p \<noteq> None"
    then have "live s p \<noteq> None" "\<forall>j<length (addr s). addr s ! j \<noteq> p" using f(3) by blast+
    then show False using assms(1) unfolding table_ok_def by blast
  qed
  then show ?thesis using f(1,2) by auto
qed

lemma table_ok_start: "table_ok (malloc_child_start r d c opt_malloc_max)"
  by (simp add: table_ok_def malloc_child_start_def)

lemma malloc_child_run_frees:
  assumes "malloc_child_run fuel w heap_says opt_malloc_bytes opt_malloc_max max_ops
             (malloc_child_start r d c opt_malloc_max) = Some (Next s') \<or>
           malloc_child_run fuel w heap_says opt_malloc_bytes opt_malloc_max max_ops
             (malloc_child_start r d c opt_malloc_max) = Some (Abort s')"
  shows "live s' = (\<lambda>p. None) \<and> bad_frees s' = 0 \<and>
         (\<forall>j<length (addr s'). live s' (addr s' ! j) = None)"
proof -
  let ?s0 = "malloc_child_start r d c opt_malloc_max"
  have len0: "length (addr ?s0) = unat opt_malloc_max" by (simp add: malloc_child_start_def)
  obtain s1 where s1: "malloc_loop fuel w heap_says opt_malloc_bytes opt_malloc_max max_ops ?s0 =
        Some (Next s1) \<or>
      malloc_loop fuel w heap_says opt_malloc_bytes opt_malloc_max max_ops ?s0 = Some (Abort s1)"
    and s': "s' = free_all opt_malloc_max s1"
    using assms by (auto simp: malloc_child_run_def split: option.splits step.splits)
  have "table_ok s1 \<and> length (addr s1) = unat opt_malloc_max"
    using malloc_loop_ok [OF table_ok_start len0 s1] .
  then show ?thesis
    using free_all_empties [of s1 opt_malloc_max] s' by simp
qed

lemma reads_allocator [simp]:
  "reads (asked s) = reads s"
  "reads (counted s) = reads s"
  "reads (store i p s) = reads s"
  "reads (mincore_touch_pages p len s) = reads s"
  "reads (c_free p s) = reads s"
  "reads (drawn s) = reads s"
  "reads (snd (c_malloc heap_says len s)) = reads s"
  "reads (snd (c_calloc heap_says n sz s)) = reads s"
  "reads (snd (c_realloc heap_says p len s)) = reads s"
  by (simp_all add: asked_def counted_def store_def mincore_touch_pages_def c_free_def drawn_def
      c_malloc_def c_calloc_def c_realloc_def fresh_block_def split: reply.splits)

lemma malloc_occupied_reads:
  assumes "opt_malloc_bytes \<noteq> 0"
  shows "\<exists>s'. malloc_occupied w heap_says opt_malloc_bytes i action s = Next s' \<and> reads s' = reads s"
  using assms
  by (simp add: malloc_occupied_def stress_alloc_size_def Let_def split_beta)

lemma malloc_empty_reads:
  assumes "opt_malloc_bytes \<noteq> 0"
  shows "\<exists>s'. malloc_empty w heap_says opt_malloc_bytes i rnd action do_calloc s = Next s' \<and>
           reads s' = reads s"
  using assms
  by (simp add: malloc_empty_def stress_alloc_size_def Let_def split_beta)

lemma malloc_iteration_reads:
  assumes "opt_malloc_max \<noteq> 0" and "opt_malloc_bytes \<noteq> 0"
  shows "\<exists>s'. (malloc_iteration w heap_says opt_malloc_bytes opt_malloc_max s =
             (if do_run w (reads s) then Next s' else Abort s')) \<and>
           reads s' = Suc (reads s)"
proof -
  let ?rnd = "mwc32 w (draws s)"
  let ?i = "unat ?rnd mod unat opt_malloc_max"
  let ?s1 = "seen (drawn s)"
  have r1: "reads ?s1 = Suc (reads s)" by (simp add: seen_def)
  show ?thesis
  proof (cases "do_run w (reads s)")
    case False
    then show ?thesis
      using assms(1) r1 by (simp add: malloc_iteration_def Let_def opt_do_run_def)
  next
    case True
    show ?thesis
    proof (cases "addr s ! ?i \<noteq> 0")
      case o: True
      obtain s' where "malloc_occupied w heap_says opt_malloc_bytes ?i (drop_bit 12 ?rnd AND 1) ?s1 =
          Next s'" "reads s' = reads ?s1"
        using malloc_occupied_reads [OF assms(2)] by blast
      then show ?thesis
        using assms(1) True o r1 by (simp add: malloc_iteration_def Let_def opt_do_run_def)
    next
      case e: False
      obtain s' where "malloc_empty w heap_says opt_malloc_bytes ?i ?rnd (drop_bit 12 ?rnd AND 1)
          (drop_bit 14 ?rnd AND 0x1f) ?s1 = Next s'" "reads s' = reads ?s1"
        using malloc_empty_reads [OF assms(2)] by blast
      then show ?thesis
        using assms(1) True e r1 by (simp add: malloc_iteration_def Let_def opt_do_run_def)
    qed
  qed
qed

lemma malloc_loop_returns:
  assumes "opt_malloc_max \<noteq> 0" and "opt_malloc_bytes \<noteq> 0"
    and "\<forall>k\<ge>K. \<not> do_run w k" and "K - reads s < fuel"
  shows "\<exists>s'. malloc_loop fuel w heap_says opt_malloc_bytes opt_malloc_max max_ops s = Some (Next s') \<or>
           malloc_loop fuel w heap_says opt_malloc_bytes opt_malloc_max max_ops s = Some (Abort s')"
  using assms(4)
proof (induction fuel arbitrary: s)
  case 0
  then show ?case by simp
next
  case (Suc fuel)
  obtain s1 where s1: "malloc_iteration w heap_says opt_malloc_bytes opt_malloc_max s =
             (if do_run w (reads s) then Next s1 else Abort s1)" "reads s1 = Suc (reads s)"
    using malloc_iteration_reads [OF assms(1,2)] by blast
  show ?case
  proof (cases "do_run w (reads s)")
    case False
    then show ?thesis using s1(1) by simp
  next
    case True
    then have lt: "reads s < K" using assms(3) by (meson not_le)
    show ?thesis
    proof (cases "opt_do_run w s1 \<and> (max_ops = 0 \<or> counter s1 < max_ops)")
      case False
      then show ?thesis using s1(1) True by auto
    next
      case again: True
      then have "reads s1 < K" using assms(3) by (meson not_le opt_do_run_def)
      then have "K - reads (seen s1) < fuel" using Suc.prems s1(2) by (simp add: seen_def)
      from Suc.IH [OF this] show ?thesis using s1(1) True again by simp
    qed
  qed
qed

text \<open>
  Claim C8. However the worker leaves its loop, through the loop condition or through
  \<open>goto abort\<close> when the run flag reads clear at the top of an iteration, the frees at
  \<open>abort\<close> release every block the worker holds: no block is live afterwards, no slot
  of the table refers to a live block, and no free was given a pointer that was not
  live (so nothing was freed twice). This holds for every world, every behaviour of the
  allocator and every amount of fuel on which the worker returns. And the worker does
  return: when the run flag stays clear from the \<open>K\<close>-th read on and the worker starts
  at read \<open>r\<close>, any fuel above \<open>K - r\<close> is enough (the two sizes being non-zero, as
  the option checks make them).
\<close>

theorem malloc_worker_frees_all:
  "(malloc_child_run fuel w heap_says opt_malloc_bytes opt_malloc_max max_ops
      (malloc_child_start r d c opt_malloc_max) = Some (Next s') \<or>
    malloc_child_run fuel w heap_says opt_malloc_bytes opt_malloc_max max_ops
      (malloc_child_start r d c opt_malloc_max) = Some (Abort s') \<longrightarrow>
      live s' = (\<lambda>p. None) \<and> bad_frees s' = 0 \<and>
      (\<forall>j<length (addr s'). live s' (addr s' ! j) = None)) \<and>
   (opt_malloc_max \<noteq> 0 \<and> opt_malloc_bytes \<noteq> 0 \<and> (\<forall>k\<ge>K. \<not> do_run w k) \<and> K - r < fuel \<longrightarrow>
      (\<exists>t. malloc_child_run fuel w heap_says opt_malloc_bytes opt_malloc_max max_ops
              (malloc_child_start r d c opt_malloc_max) = Some (Next t) \<or>
           malloc_child_run fuel w heap_says opt_malloc_bytes opt_malloc_max max_ops
              (malloc_child_start r d c opt_malloc_max) = Some (Abort t)))"
proof (rule conjI; rule impI)
  assume "malloc_child_run fuel w heap_says opt_malloc_bytes opt_malloc_max max_ops
      (malloc_child_start r d c opt_malloc_max) = Some (Next s') \<or>
    malloc_child_run fuel w heap_says opt_malloc_bytes opt_malloc_max max_ops
      (malloc_child_start r d c opt_malloc_max) = Some (Abort s')"
  then show "live s' = (\<lambda>p. None) \<and> bad_frees s' = 0 \<and>
      (\<forall>j<length (addr s'). live s' (addr s' ! j) = None)"
    using malloc_child_run_frees [of fuel w heap_says opt_malloc_bytes opt_malloc_max max_ops
        r d c s']
    by blast
next
  let ?s0 = "malloc_child_start r d c opt_malloc_max"
  assume a: "opt_malloc_max \<noteq> 0 \<and> opt_malloc_bytes \<noteq> 0 \<and> (\<forall>k\<ge>K. \<not> do_run w k) \<and> K - r < fuel"
  then have "K - reads ?s0 < fuel" by (simp add: malloc_child_start_def)
  then obtain s1 where
    "malloc_loop fuel w heap_says opt_malloc_bytes opt_malloc_max max_ops ?s0 = Some (Next s1) \<or>
     malloc_loop fuel w heap_says opt_malloc_bytes opt_malloc_max max_ops ?s0 = Some (Abort s1)"
    using malloc_loop_returns [of opt_malloc_max opt_malloc_bytes K w ?s0 fuel heap_says max_ops] a
    by blast
  then show "\<exists>t. malloc_child_run fuel w heap_says opt_malloc_bytes opt_malloc_max max_ops ?s0 =
        Some (Next t) \<or>
      malloc_child_run fuel w heap_says opt_malloc_bytes opt_malloc_max max_ops ?s0 = Some (Abort t)"
    by (auto simp: malloc_child_run_def)
qed

text \<open>
  Two runs of the worker on a table of four slots, with an allocator that serves every
  request: in the first the run flag clears after the first pass and the worker leaves
  through \<open>goto abort\<close>, in the second it leaves through the loop condition. Both
  times slot 0 was given the block at address 1, and the frees release it.
\<close>

lemma fold_free_keeps:
  "counter (fold (\<lambda>j s. c_free (addr s ! j) s) xs s) = counter s \<and>
   addr (fold (\<lambda>j s. c_free (addr s ! j) s) xs s) = addr s \<and>
   asks (fold (\<lambda>j s. c_free (addr s ! j) s) xs s) = asks s"
  by (induction xs arbitrary: s) (simp_all add: c_free_def)

lemma free_all_keeps [simp]:
  "counter (free_all n s) = counter s"
  "addr (free_all n s) = addr s"
  "asks (free_all n s) = asks s"
  by (simp_all add: free_all_def fold_free_keeps)

lemma abort_when_clear:
  assumes "opt_malloc_max \<noteq> 0" and "\<not> do_run w (reads s)"
  shows "malloc_iteration w heap_says opt_malloc_bytes opt_malloc_max s = Abort (seen (drawn s))"
  using assms by (simp add: malloc_iteration_def Let_def opt_do_run_def drawn_def)

lemma replicate_4: "replicate 4 x = [x, x, x, x]"
  by (simp add: eval_nat_numeral)

lemma bits_20480:
  "drop_bit 12 (20480 :: 32 word) AND 1 = 1" "drop_bit 14 (20480 :: 32 word) AND 0x1f = 1"
  "unat (20480 :: 32 word) mod unat (4 :: 64 word) = 0" "(20480 :: 64 word) mod 4096 = 0"
  by simp_all

lemma first_iteration:
  "\<exists>s1. malloc_iteration (stopping_world n 20480) (\<lambda>k. Served) 4096 4
           (malloc_child_start 0 0 0 4) = (if 0 < n then Next s1 else Abort s1) \<and>
     reads s1 = 1 \<and> counter s1 = (if 0 < n then 1 else 0) \<and>
     addr s1 = (if 0 < n then [1, 0, 0, 0] else [0, 0, 0, 0]) \<and> asks s1 = (if 0 < n then 1 else 0)"
  by (simp add: malloc_iteration_def malloc_empty_def stress_alloc_size_def c_malloc_def
      fresh_block_def store_def counted_def asked_def seen_def drawn_def mincore_touch_pages_def
      opt_do_run_def malloc_child_start_def stopping_world_def Let_def replicate_4 bits_20480)

lemma abort_run:
  "\<exists>s'. malloc_child_run (Suc (Suc 0)) (stopping_world 2 20480) (\<lambda>k. Served) 4096 4 0
           (malloc_child_start 0 0 0 4) = Some (Abort s') \<and>
      counter s' = 1 \<and> addr s' = [1, 0, 0, 0] \<and> asks s' = 1"
proof -
  let ?w = "stopping_world 2 20480"
  obtain s1 where s1: "malloc_iteration ?w (\<lambda>k. Served) 4096 4 (malloc_child_start 0 0 0 4) = Next s1"
    "reads s1 = 1" "counter s1 = 1" "addr s1 = [1, 0, 0, 0]" "asks s1 = 1"
    using first_iteration [of 2] by auto
  have go: "opt_do_run ?w s1" using s1(2) by (simp add: opt_do_run_def stopping_world_def)
  have "\<not> do_run ?w (reads (seen s1))" using s1(2) by (simp add: stopping_world_def seen_def)
  then have "malloc_iteration ?w (\<lambda>k. Served) 4096 4 (seen s1) = Abort (seen (drawn (seen s1)))"
    by (intro abort_when_clear) simp_all
  then have "malloc_loop (Suc (Suc 0)) ?w (\<lambda>k. Served) 4096 4 0 (malloc_child_start 0 0 0 4) =
      Some (Abort (seen (drawn (seen s1))))"
    using s1(1) go by simp
  then have "malloc_child_run (Suc (Suc 0)) ?w (\<lambda>k. Served) 4096 4 0 (malloc_child_start 0 0 0 4) =
      Some (Abort (free_all 4 (seen (drawn (seen s1)))))"
    by (simp add: malloc_child_run_def)
  then show ?thesis
    using s1(3,4,5) by (simp add: seen_def drawn_def)
qed

lemma normal_run:
  "\<exists>s'. malloc_child_run (Suc 0) (stopping_world 1 20480) (\<lambda>k. Served) 4096 4 0
           (malloc_child_start 0 0 0 4) = Some (Next s') \<and>
      counter s' = 1 \<and> addr s' = [1, 0, 0, 0] \<and> asks s' = 1"
proof -
  let ?w = "stopping_world 1 20480"
  obtain s1 where s1: "malloc_iteration ?w (\<lambda>k. Served) 4096 4 (malloc_child_start 0 0 0 4) = Next s1"
    "reads s1 = 1" "counter s1 = 1" "addr s1 = [1, 0, 0, 0]" "asks s1 = 1"
    using first_iteration [of 1] by auto
  have stop: "\<not> opt_do_run ?w s1" using s1(2) by (simp add: opt_do_run_def stopping_world_def)
  then have "malloc_loop (Suc 0) ?w (\<lambda>k. Served) 4096 4 0 (malloc_child_start 0 0 0 4) =
      Some (Next (seen s1))"
    using s1(1) by simp
  then have "malloc_child_run (Suc 0) ?w (\<lambda>k. Served) 4096 4 0 (malloc_child_start 0 0 0 4) =
      Some (Next (free_all 4 (seen s1)))"
    by (simp add: malloc_child_run_def)
  then show ?thesis
    using s1(3,4,5) by (simp add: seen_def)
qed

theorem malloc_worker_frees_all_witness:
  "(\<exists>s'. malloc_child_run (Suc (Suc 0)) (stopping_world 2 20480) (\<lambda>k. Served) 4096 4 0
           (malloc_child_start 0 0 0 4) = Some (Abort s') \<and>
      counter s' = 1 \<and> addr s' = [1, 0, 0, 0] \<and> live s' = (\<lambda>p. None) \<and> bad_frees s' = 0) \<and>
   (\<exists>s'. malloc_child_run (Suc 0) (stopping_world 1 20480) (\<lambda>k. Served) 4096 4 0
           (malloc_child_start 0 0 0 4) = Some (Next s') \<and>
      counter s' = 1 \<and> addr s' = [1, 0, 0, 0] \<and> live s' = (\<lambda>p. None) \<and> bad_frees s' = 0) \<and>
   (\<exists>t. malloc_child_run 3 (stopping_world 2 20480) (\<lambda>k. Served) 4096 4 0
        (malloc_child_start 0 0 0 4) = Some (Next t) \<or>
      malloc_child_run 3 (stopping_world 2 20480) (\<lambda>k. Served) 4096 4 0
        (malloc_child_start 0 0 0 4) = Some (Abort t))"
proof -
  obtain a where a: "malloc_child_run (Suc (Suc 0)) (stopping_world 2 20480) (\<lambda>k. Served) 4096 4 0
           (malloc_child_start 0 0 0 4) = Some (Abort a)" "counter a = 1" "addr a = [1, 0, 0, 0]"
    using abort_run by blast
  obtain b where b: "malloc_child_run (Suc 0) (stopping_world 1 20480) (\<lambda>k. Served) 4096 4 0
           (malloc_child_start 0 0 0 4) = Some (Next b)" "counter b = 1" "addr b = [1, 0, 0, 0]"
    using normal_run by blast
  have "live a = (\<lambda>p. None) \<and> bad_frees a = 0"
    using malloc_worker_frees_all [of "Suc (Suc 0)" "stopping_world 2 20480" "\<lambda>k. Served"
        4096 4 0 0 0 0 a 2, THEN conjunct1] a(1)
    by simp
  moreover have "live b = (\<lambda>p. None) \<and> bad_frees b = 0"
    using malloc_worker_frees_all [of "Suc 0" "stopping_world 1 20480" "\<lambda>k. Served"
        4096 4 0 0 0 0 b 1, THEN conjunct1] b(1)
    by simp
  moreover have "\<exists>t. malloc_child_run 3 (stopping_world 2 20480) (\<lambda>k. Served) 4096 4 0
        (malloc_child_start 0 0 0 4) = Some (Next t) \<or>
      malloc_child_run 3 (stopping_world 2 20480) (\<lambda>k. Served) 4096 4 0
        (malloc_child_start 0 0 0 4) = Some (Abort t)"
    using malloc_worker_frees_all [of 3 "stopping_world 2 20480" "\<lambda>k. Served"
        4096 4 0 0 0 0 a 2, THEN conjunct2]
    by (simp add: stopping_world_def)
  ultimately show ?thesis using a b by blast
qed

subsection \<open>Single iterations\<close>

text \<open>
  Claim C7. In an iteration that finds its slot occupied and takes the resize branch
  (action bit clear), a \<open>realloc\<close> that fails leaves the table, the counter and the heap
  as they were: the slot still holds the original block, which is still live, and
  nothing is counted or touched.
\<close>

theorem realloc_failure_leaves_slot:
  assumes "opt_malloc_max \<noteq> 0" and "opt_malloc_bytes \<noteq> 0"
    and "do_run w (reads s)"
    and "addr s ! (unat (mwc32 w (draws s)) mod unat opt_malloc_max) \<noteq> 0"
    and "drop_bit 12 (mwc32 w (draws s)) AND 1 = 0"
    and "heap_says (asks s) = Refused"
  shows "\<exists>s'. malloc_iteration w heap_says opt_malloc_bytes opt_malloc_max s = Next s' \<and>
           addr s' = addr s \<and> counter s' = counter s \<and> live s' = live s \<and>
           touched s' = touched s"
  using assms
  by (simp add: malloc_iteration_def malloc_occupied_def stress_alloc_size_def c_realloc_def
      Let_def opt_do_run_def seen_def drawn_def asked_def)

theorem realloc_failure_leaves_slot_witness:
  "\<exists>s'. malloc_iteration (steady_world 0) (\<lambda>k. Refused) 4096 1 one_block = Next s' \<and>
      addr s' = [5] \<and> counter s' = 7 \<and> live s' 5 = Some 8"
  using realloc_failure_leaves_slot [of 1 4096 "steady_world 0" one_block "\<lambda>k. Refused"]
  by (auto simp: steady_world_def one_block_def)

lemma unat_ucast_32_64: "unat (ucast (x :: 32 word) :: 64 word) = unat x"
proof -
  have "unat x < 2 ^ 32" using unsigned_less [of x, where 'a = nat] by simp
  also have "(2 :: nat) ^ 32 < 2 ^ 64" by simp
  finally have "take_bit 64 (unat x) = unat x" by (rule take_bit_nat_eq_self)
  then show ?thesis by (simp add: unsigned_ucast_eq)
qed

lemma calloc_pieces_range: "1 \<le> calloc_pieces rnd \<and> calloc_pieces rnd \<le> 17"
proof -
  have m: "unat (drop_bit 15 rnd mod 17) < 17"
    by (simp add: unat_mod)
  then have "unat (drop_bit 15 rnd mod 17 + 1) = unat (drop_bit 15 rnd mod 17) + 1"
    by (simp add: unat_word_ariths)
  then have u: "unat (calloc_pieces rnd) = unat (drop_bit 15 rnd mod 17) + 1"
    by (simp add: calloc_pieces_def unat_ucast_32_64)
  show ?thesis
    using u m by (simp add: word_le_nat_alt)
qed

lemma calloc_total:
  fixes n len :: "64 word"
  shows "unat (n * (len div n)) = unat n * (unat len div unat n) \<and>
         unat n * unat (len div n) < 2 ^ 64 \<and>
         (len < n \<longrightarrow> n * (len div n) = 0)"
proof -
  have "unat n * (unat len div unat n) \<le> unat len" by simp
  also have "unat len < 2 ^ 64" using unsigned_less [of len, where 'a = nat] by simp
  finally have lt: "unat n * unat (len div n) < 2 ^ LENGTH(64)" by (simp add: unat_div)
  then have "unat (n * (len div n)) = unat n * unat (len div n)"
    by (simp only: unat_mult_lem)
  moreover have "len < n \<longrightarrow> len div n = 0"
    by (simp add: word_less_nat_alt unat_div unat_eq_0 [symmetric])
  ultimately show ?thesis using lt by (auto simp: unat_div)
qed

text \<open>
  Claim C10. In an iteration that finds its slot empty, takes the allocation branch
  (action bit set) and the partitioned style (\<open>do_calloc = 0\<close>), the piece count
  \<open>n = ((rnd >> 15) % 17) + 1\<close> is between 1 and 17, the allocation requested is
  \<open>calloc(n, len / n)\<close> for the rolled size \<open>len\<close>, of \<open>n * (len / n)\<close> bytes in all
  (the product does not wrap), which is zero when \<open>len < n\<close>. A refused request changes
  neither counter nor table; a served one, of zero bytes included, stores the block in
  the slot, counts one operation and touches the block with that total size.
\<close>

theorem calloc_branch_sizes:
  assumes "opt_malloc_max \<noteq> 0" and "opt_malloc_bytes \<noteq> 0"
    and "do_run w (reads s)"
    and "rnd = mwc32 w (draws s)"
    and "i = unat rnd mod unat opt_malloc_max"
    and "i < length (addr s)" and "addr s ! i = 0" and "0 < brk s"
    and "drop_bit 12 rnd AND 1 \<noteq> 0" and "drop_bit 14 rnd AND 0x1f = 0"
    and "n = calloc_pieces rnd"
    and "len = (if mwc64 w (Suc (draws s)) mod opt_malloc_bytes \<noteq> 0
                then mwc64 w (Suc (draws s)) mod opt_malloc_bytes else 1)"
  shows "1 \<le> n \<and> n \<le> 17 \<and>
         unat (n * (len div n)) = unat n * (unat len div unat n) \<and>
         (len < n \<longrightarrow> n * (len div n) = 0) \<and>
         (heap_says (asks s) = Refused \<longrightarrow>
            (\<exists>s'. malloc_iteration w heap_says opt_malloc_bytes opt_malloc_max s = Next s' \<and>
               counter s' = counter s \<and> addr s' = addr s \<and> live s' = live s)) \<and>
         (heap_says (asks s) \<noteq> Refused \<longrightarrow>
            (\<exists>s'. malloc_iteration w heap_says opt_malloc_bytes opt_malloc_max s = Next s' \<and>
               counter s' = counter s + 1 \<and> addr s' = (addr s)[i := brk s] \<and>
               live s' = (live s)(brk s := Some (n * (len div n))) \<and>
               touched s' = touched s @ [(brk s, n * (len div n))]))"
proof -
  have rng: "1 \<le> n \<and> n \<le> 17" using assms(11) calloc_pieces_range by simp
  have tot: "unat (n * (len div n)) = unat n * (unat len div unat n)"
    "unat n * unat (len div n) < 2 ^ 64" "len < n \<longrightarrow> n * (len div n) = 0"
    using calloc_total [of n len] by simp_all
  let ?s1 = "seen (drawn s)"
  have sz: "stress_alloc_size w opt_malloc_bytes ?s1 = Some (len, drawn ?s1)"
    using assms(2,12) by (simp add: stress_alloc_size_def Let_def seen_def drawn_def)
  have it: "malloc_iteration w heap_says opt_malloc_bytes opt_malloc_max s =
      (case c_calloc heap_says n (len div n) (drawn ?s1) of
         (p, s2) \<Rightarrow>
           if p \<noteq> 0 then Next (mincore_touch_pages p (n * (len div n)) (counted (store i p s2)))
           else Next (store i p s2))"
    using assms(1,3,4,5,7,9,10,11) sz
    by (simp add: malloc_iteration_def malloc_empty_def Let_def opt_do_run_def split_beta
        drawn_def [of s] seen_def [of "s\<lparr>draws := Suc (draws s)\<rparr>"])
  have no: "\<not> 2 ^ 64 \<le> unat n * unat (len div n)" using tot(2) by simp
  have refused: "heap_says (asks s) = Refused \<longrightarrow>
            (\<exists>s'. malloc_iteration w heap_says opt_malloc_bytes opt_malloc_max s = Next s' \<and>
               counter s' = counter s \<and> addr s' = addr s \<and> live s' = live s)"
    unfolding it using no assms(7)
    by (simp add: c_calloc_def c_malloc_def store_def asked_def seen_def drawn_def
        list_update_same)
  have served: "heap_says (asks s) \<noteq> Refused \<longrightarrow>
            (\<exists>s'. malloc_iteration w heap_says opt_malloc_bytes opt_malloc_max s = Next s' \<and>
               counter s' = counter s + 1 \<and> addr s' = (addr s)[i := brk s] \<and>
               live s' = (live s)(brk s := Some (n * (len div n))) \<and>
               touched s' = touched s @ [(brk s, n * (len div n))])"
    unfolding it using no assms(8)
    by (cases "heap_says (asks s)")
      (simp_all add: c_calloc_def c_malloc_def fresh_block_def store_def asked_def seen_def
        drawn_def counted_def mincore_touch_pages_def)
  show ?thesis using rng tot(1,3) refused served by blast
qed

lemma pieces_17: "calloc_pieces 528384 = 17"
  by (simp add: calloc_pieces_def)

lemma bits_528384: "drop_bit 12 (528384 :: 32 word) AND 1 \<noteq> 0"
  "drop_bit 14 (528384 :: 32 word) AND 0x1f = 0"
  by simp_all

theorem calloc_branch_sizes_witness:
  "calloc_pieces 528384 = 17 \<and>
   (\<exists>s'. malloc_iteration (steady_world 528384) (\<lambda>k. Served) 4 4 (malloc_child_start 0 0 0 4) =
        Next s' \<and>
      counter s' = 1 \<and> addr s' = [1, 0, 0, 0] \<and> live s' 1 = Some 0 \<and> touched s' = [(1, 0)])"
proof -
  let ?w = "steady_world 528384" and ?s = "malloc_child_start 0 0 0 4"
  have len: "(1 :: 64 word) = (if mwc64 ?w (Suc (draws ?s)) mod 4 \<noteq> 0
                then mwc64 ?w (Suc (draws ?s)) mod 4 else 1)"
    by (simp add: steady_world_def)
  have h: "do_run ?w (reads ?s)" "528384 = mwc32 ?w (draws ?s)"
    "0 = unat (528384 :: 32 word) mod unat (4 :: 64 word)"
    "0 < length (addr ?s)" "addr ?s ! 0 = 0" "0 < brk ?s"
    "17 = calloc_pieces 528384" "(\<lambda>k. Served) (asks ?s) \<noteq> Refused"
    by (simp_all add: steady_world_def malloc_child_start_def pieces_17)
  have "\<exists>s'. malloc_iteration ?w (\<lambda>k. Served) 4 4 ?s = Next s' \<and>
               counter s' = counter ?s + 1 \<and> addr s' = (addr ?s)[0 := brk ?s] \<and>
               live s' = (live ?s)(brk ?s := Some (17 * (1 div 17))) \<and>
               touched s' = touched ?s @ [(brk ?s, 17 * (1 div 17))]"
    using calloc_branch_sizes [of 4 4 ?w ?s 528384 0 17 1 "\<lambda>k. Served", OF _ _ h(1,2,3,4,5,6)
        bits_528384 h(7) len] h(8)
    by simp
  moreover have "replicate 4 (0 :: nat) = [0, 0, 0, 0]" by (simp add: eval_nat_numeral)
  ultimately show ?thesis
    by (auto simp: pieces_17 malloc_child_start_def word_div_def)
qed

section \<open>The allocator stressor as a whole\<close>

lemma malloc_again_child_exits:
  assumes "fork_ret sys (forks s) > 0" and "waitpid_ret sys (waits s) \<ge> 0"
    and "waitpid_status sys (waits s) = Exited code"
  shows "\<exists>s'. stress_malloc_again (Suc fuel) w sys s = Some (Parent_leaves s') \<and>
     events s' = events s @ [Fork, Setpgid (fork_ret sys (forks s)), Parent_died_alarm,
        Waitpid (fork_ret sys (forks s))] \<and>
     forks s' = Suc (forks s) \<and> restarts s' = restarts s"
  using assms
  by (simp add: malloc_again_unfold Let_def WIFSIGNALED_def)

lemma malloc_epilogue_keeps [simp]:
  "restarts (malloc_epilogue s) = restarts s"
  "forks (malloc_epilogue s) = forks s"
  "count_list (events (malloc_epilogue s)) Log_system_mem_info =
     count_list (events s) Log_system_mem_info"
  by (simp_all add: malloc_epilogue_def)

lemma stress_malloc_survives_oom:
  assumes "\<forall>k<n. fork_ret sys k > 0 \<and> waitpid_ret sys k \<ge> 0 \<and>
             waitpid_status sys k = Signaled SIGKILL"
    and "fork_ret sys n > 0" and "waitpid_ret sys n \<ge> 0" and "waitpid_status sys n = Exited code"
  shows "\<exists>s'. stress_malloc (Suc n) w sys heap_says opt_malloc_bytes opt_malloc_max c max_ops =
           Some (Parent_returned EXIT_SUCCESS s') \<and>
         restarts s' = of_nat n \<and> forks s' = Suc n \<and>
         count_list (events s') Log_system_mem_info = n"
proof -
  let ?s0 = "malloc_parent_start c"
  have s0: "forks ?s0 = 0" "waits ?s0 = 0" "restarts ?s0 = 0" "events ?s0 = []"
    by (simp_all add: malloc_parent_start_def)
  have "\<forall>k<n. fork_ret sys (forks ?s0 + k) > 0 \<and> waitpid_ret sys (waits ?s0 + k) \<ge> 0 \<and>
             waitpid_status sys (waits ?s0 + k) = Signaled SIGKILL"
    using assms(1) s0 by simp
  from malloc_again_oom_repeats [OF this, of "Suc 0" w]
  obtain s1 where s1: "stress_malloc_again (n + Suc 0) w sys ?s0 = stress_malloc_again (Suc 0) w sys s1"
    "restarts s1 = of_nat n" "forks s1 = n" "waits s1 = n"
    "count_list (events s1) Log_system_mem_info = n"
    using s0 by auto
  obtain s2 where s2: "stress_malloc_again (Suc 0) w sys s1 = Some (Parent_leaves s2)"
    "events s2 = events s1 @ [Fork, Setpgid (fork_ret sys (forks s1)), Parent_died_alarm,
        Waitpid (fork_ret sys (forks s1))]"
    "forks s2 = Suc (forks s1)" "restarts s2 = restarts s1"
    using malloc_again_child_exits [of sys s1 code 0 w] assms(2,3,4) s1(3,4) by auto
  have "stress_malloc (Suc n) w sys heap_says opt_malloc_bytes opt_malloc_max c max_ops =
      Some (Parent_returned EXIT_SUCCESS (malloc_epilogue s2))"
    using s1(1) s2(1) by (simp add: stress_malloc_def)
  then show ?thesis
    using s1(2,3,5) s2(2,3,4) by simp
qed

lemma free_all_start:
  "free_all opt_malloc_max (seen (drawn (malloc_child_start r d c opt_malloc_max))) =
     seen (drawn (malloc_child_start r d c opt_malloc_max))"
proof -
  let ?s = "seen (drawn (malloc_child_start r d c opt_malloc_max))"
  have "fold (\<lambda>j s. c_free (addr s ! j) s) [0..<n] ?s = ?s" if "n \<le> unat opt_malloc_max" for n
    using that
  proof (induction n)
    case 0
    show ?case by simp
  next
    case (Suc n)
    then have "addr ?s ! n = 0" by (simp add: malloc_child_start_def)
    then show ?case using Suc by (simp add: c_free_def)
  qed
  then show ?thesis by (simp add: free_all_def)
qed

lemma stress_malloc_child_stops_at_once:
  assumes "\<forall>k<n. fork_ret sys k > 0 \<and> waitpid_ret sys k \<ge> 0 \<and>
             waitpid_status sys k = Signaled SIGKILL"
    and "fork_ret sys n = 0" and "opt_malloc_max \<noteq> 0" and "\<not> do_run w 0"
  shows "\<exists>p r. stress_malloc (Suc n) w sys heap_says opt_malloc_bytes opt_malloc_max c max_ops =
           Some (Child_returned EXIT_SUCCESS p (Abort r)) \<and>
         restarts p = of_nat n \<and> counter r = c \<and> asks r = 0"
proof -
  let ?s0 = "malloc_parent_start c"
  let ?c0 = "malloc_child_start 0 0 c opt_malloc_max"
  have s0: "forks ?s0 = 0" "waits ?s0 = 0" "restarts ?s0 = 0" "reads ?s0 = 0" "draws ?s0 = 0"
    "counter ?s0 = c"
    by (simp_all add: malloc_parent_start_def)
  have "\<forall>k<n. fork_ret sys (forks ?s0 + k) > 0 \<and> waitpid_ret sys (waits ?s0 + k) \<ge> 0 \<and>
             waitpid_status sys (waits ?s0 + k) = Signaled SIGKILL"
    using assms(1) s0 by simp
  from malloc_again_oom_repeats [OF this, of "Suc 0" w]
  obtain s1 where s1: "stress_malloc_again (n + Suc 0) w sys ?s0 = stress_malloc_again (Suc 0) w sys s1"
    "restarts s1 = of_nat n" "forks s1 = n" "reads s1 = 0" "draws s1 = 0" "counter s1 = c"
    using s0 by auto
  have a: "stress_malloc_again (Suc 0) w sys s1 = Some (Child_enters (emit [Setpgid 0] (forked s1)))"
    using assms(2) s1(3) by (simp add: malloc_again_unfold Let_def)
  have "\<not> do_run w (reads ?c0)" using assms(4) by (simp add: malloc_child_start_def)
  then have "malloc_iteration w heap_says opt_malloc_bytes opt_malloc_max ?c0 =
      Abort (seen (drawn ?c0))"
    using assms(3) by (intro abort_when_clear)
  then have "malloc_child_run (Suc n) w heap_says opt_malloc_bytes opt_malloc_max max_ops ?c0 =
      Some (Abort (seen (drawn ?c0)))"
    by (simp add: malloc_child_run_def free_all_start)
  then have "stress_malloc (Suc n) w sys heap_says opt_malloc_bytes opt_malloc_max c max_ops =
      Some (Child_returned EXIT_SUCCESS (malloc_epilogue (emit [Setpgid 0] (forked s1)))
        (Abort (seen (drawn ?c0))))"
    using a s1(1,4,5,6) by (simp add: stress_malloc_def)
  then show ?thesis
    using s1(2) by (simp add: malloc_child_start_def seen_def drawn_def)
qed

text \<open>
  What the supervisor does when its child is killed, for every world \<open>w\<close>, that is
  whatever the run flag reads: \<open>n\<close> children killed by \<open>SIGKILL\<close> in a row give \<open>n\<close>
  restarts (lemma \<open>malloc_again_oom_repeats\<close>, with the memory state logged \<open>n\<close> times
  and the flag not read once), and when the next child exits the job returns
  \<open>EXIT_SUCCESS\<close> (lemma \<open>stress_malloc_survives_oom\<close>); a child killed by any other
  signal is logged and not restarted (lemma \<open>malloc_again_other_signal\<close>). A restarted
  child that finds the flag clear leaves its loop at the first check
  (lemma \<open>stress_malloc_child_stops_at_once\<close>).
\<close>

text \<open>
  Claim C2. The claim lets the run flag bound the restarts. The supervisor does not:
  the branch for \<open>WTERMSIG(status) == SIGKILL\<close> goes back to \<open>again\<close> without reading
  \<open>opt_do_run\<close>, where the branch for a failed \<open>fork\<close> reads it before it goes back. In
  a world whose run flag is clear at every read, with a first and a second child killed
  by \<open>SIGKILL\<close> and a third that exits, the supervisor restarts twice and forks three
  times and never reads the flag, \<open>reads = 0\<close>; in the same world a \<open>fork\<close> that fails
  with \<open>EAGAIN\<close> is not tried again: the flag is read once and the failure reported.
\<close>

theorem oom_restart_ignores_run_flag:
  "stress_malloc 3 (stopping_world 0 0)
     (scripted_system [] [(1000, 0, Signaled SIGKILL), (1001, 0, Signaled SIGKILL)])
     (\<lambda>k. Served) 4096 4 0 0 =
   Some (Parent_returned EXIT_SUCCESS
     \<lparr>reads = 0, draws = 0, counter = 0, forks = 3, waits = 3,
      events = [Fork, Setpgid 1000, Parent_died_alarm, Waitpid 1000, Pr_dbg_child_died SIGKILL,
                Log_system_mem_info, Pr_dbg_assuming_oom,
                Fork, Setpgid 1001, Parent_died_alarm, Waitpid 1001, Pr_dbg_child_died SIGKILL,
                Log_system_mem_info, Pr_dbg_assuming_oom,
                Fork, Setpgid 1002, Parent_died_alarm, Waitpid 1002,
                Pr_dbg_restarts 2 0],
      restarts = 2\<rparr>) \<and>
   stress_malloc 3 (stopping_world 0 0) (scripted_system [(-1, EAGAIN)] [])
     (\<lambda>k. Served) 4096 4 0 0 =
   Some (Parent_returned EXIT_SUCCESS
     \<lparr>reads = 1, draws = 0, counter = 0, forks = 1, waits = 0,
      events = [Fork, Pr_err_fork_failed EAGAIN],
      restarts = 0\<rparr>)"
proof (rule conjI)
  show "stress_malloc 3 (stopping_world 0 0)
     (scripted_system [] [(1000, 0, Signaled SIGKILL), (1001, 0, Signaled SIGKILL)])
     (\<lambda>k. Served) 4096 4 0 0 =
   Some (Parent_returned EXIT_SUCCESS
     \<lparr>reads = 0, draws = 0, counter = 0, forks = 3, waits = 3,
      events = [Fork, Setpgid 1000, Parent_died_alarm, Waitpid 1000, Pr_dbg_child_died SIGKILL,
                Log_system_mem_info, Pr_dbg_assuming_oom,
                Fork, Setpgid 1001, Parent_died_alarm, Waitpid 1001, Pr_dbg_child_died SIGKILL,
                Log_system_mem_info, Pr_dbg_assuming_oom,
                Fork, Setpgid 1002, Parent_died_alarm, Waitpid 1002,
                Pr_dbg_restarts 2 0],
      restarts = 2\<rparr>)"
    by (simp add: stress_malloc_def eval_nat_numeral malloc_again_unfold Let_def
        scripted_system_def malloc_parent_start_def forked_def emit_def waited_def
        WIFSIGNALED_def WTERMSIG_def malloc_epilogue_def)
next
  show "stress_malloc 3 (stopping_world 0 0) (scripted_system [(-1, EAGAIN)] [])
     (\<lambda>k. Served) 4096 4 0 0 =
   Some (Parent_returned EXIT_SUCCESS
     \<lparr>reads = 1, draws = 0, counter = 0, forks = 1, waits = 0,
      events = [Fork, Pr_err_fork_failed EAGAIN],
      restarts = 0\<rparr>)"
    by (simp add: stress_malloc_def eval_nat_numeral malloc_again_unfold Let_def
        scripted_system_def malloc_parent_start_def stopping_world_def opt_do_run_def
        forked_def emit_def seen_def malloc_epilogue_def)
qed

end
